theory Spec2Isabelle
  imports Complex_Main "HOL-Library.Word"
begin

unbundle bit_operations_syntax

section \<open>JavaScript values and the ranked element model\<close>

text \<open>
  The element lists of Miratope hold JavaScript numbers. A number read from a missing
  array slot is \<open>undefined\<close>, and arithmetic on \<open>undefined\<close> gives \<open>NaN\<close>;
  both are kept as values, so that no out-of-range read is hidden by the model. Integer
  arithmetic is exact (the indices stay far below \<open>2^53\<close>).
\<close>

datatype jsval = Num int | NaN | Undefined

fun js_add :: "jsval \<Rightarrow> jsval \<Rightarrow> jsval" where
  "js_add (Num a) (Num b) = Num (a + b)"
| "js_add _ _ = NaN"

fun js_mul :: "jsval \<Rightarrow> jsval \<Rightarrow> jsval" where
  "js_mul (Num a) (Num b) = Num (a * b)"
| "js_mul _ _ = NaN"

text \<open>Truthiness of a number slot: \<open>0\<close>, \<open>NaN\<close> and \<open>undefined\<close> are falsy.\<close>

fun truthy :: "jsval \<Rightarrow> bool" where
  "truthy (Num a) = (a \<noteq> 0)"
| "truthy NaN = False"
| "truthy Undefined = False"

text \<open>
  An entry of a rank list is a \<open>Point\<close> (rank 0) or an array of indices into the rank
  below. JavaScript does not keep the two apart, so neither does the model.
\<close>

datatype element = Point "real list" | Facets "jsval list"

type_synonym ElementList = "element list list"

datatype ConstructionNode =
    Plain nat nat
  | Polygon nat nat
  | Multiprism "ConstructionNode list"
  | Multitegum "ConstructionNode list"
  | Multipyramid "ConstructionNode list"
  | Codename string
  | Name string
  | Hypercube nat
  | Simplex nat
  | Cross nat

record PolytopeC =
  elementList :: ElementList
  dimensions :: int
  spaceDimensions :: int
  construction :: ConstructionNode

datatype error = TypeError | Error string

text \<open>
  Modelled from the spec: the constructor of \<open>PolytopeC\<close> (the class is not among the
  sources). A polytope of intrinsic rank \<open>d\<close> is a sequence of cell lists indexed by
  rank \<open>0..d\<close>, so the rank is the number of rank lists minus one; the ambient
  dimension is the number of coordinates of the first vertex (\<open>-1\<close> without one).
\<close>

definition newPolytopeC :: "ElementList \<Rightarrow> ConstructionNode \<Rightarrow> PolytopeC" where
  "newPolytopeC els c =
     \<lparr> elementList = els,
       dimensions = int (length els) - 1,
       spaceDimensions = (case els of (Point cs # _) # _ \<Rightarrow> int (length cs) | _ \<Rightarrow> - 1),
       construction = c \<rparr>"

text \<open>\<open>P.elementList[m]\<close>: the rank list, \<open>None\<close> for \<open>undefined\<close>.\<close>

definition rankOf :: "PolytopeC \<Rightarrow> nat \<Rightarrow> element list option" where
  "rankOf P m = (if m < length (elementList P) then Some (elementList P ! m) else None)"

text \<open>
  \<open>el.length\<close> and \<open>el[k]\<close> of an entry of a rank list: a \<open>Point\<close> object has
  neither, so a loop over its facets does not run.
\<close>

fun facetsOf :: "element \<Rightarrow> jsval list" where
  "facetsOf (Facets fs) = fs"
| "facetsOf (Point cs) = []"

definition nthJs :: "jsval list \<Rightarrow> nat \<Rightarrow> jsval" where
  "nthJs fs k = (if k < length fs then fs ! k else Undefined)"

text \<open>A loop whose body may throw: the first error ends it.\<close>

fun foldE :: "('a \<Rightarrow> 's \<Rightarrow> error + 's) \<Rightarrow> 'a list \<Rightarrow> 's \<Rightarrow> error + 's" where
  "foldE f [] s = Inr s"
| "foldE f (x # xs) s = (case f x s of Inl e \<Rightarrow> Inl e | Inr s' \<Rightarrow> foldE f xs s')"

text \<open>\<open>els[r].push(e)\<close>; a missing rank list has no \<open>push\<close>.\<close>

definition pushTo :: "nat \<Rightarrow> element \<Rightarrow> ElementList \<Rightarrow> error + ElementList" where
  "pushTo r e els = (if r < length els then Inr (els[r := els ! r @ [e]]) else Inl TypeError)"

section \<open>Point operations\<close>

text \<open>
  Modelled from the spec: the class \<open>Point\<close> is not among the sources. \<open>product\<close>
  concatenates the coordinates of two points, \<open>padLeft n\<close> prepends and \<open>padRight n\<close>
  appends \<open>n\<close> zero coordinates, \<open>addCoordinate x\<close> appends one coordinate. An entry
  that is not a point has no coordinates: the call throws.
\<close>

fun Point_product :: "element \<Rightarrow> element \<Rightarrow> error + element" where
  "Point_product (Point p) (Point q) = Inr (Point (p @ q))"
| "Point_product _ _ = Inl TypeError"

fun Point_padLeft :: "element \<Rightarrow> int \<Rightarrow> error + element" where
  "Point_padLeft (Point p) n = Inr (Point (replicate (nat n) 0 @ p))"
| "Point_padLeft _ n = Inl TypeError"

fun Point_padRight :: "element \<Rightarrow> int \<Rightarrow> error + element" where
  "Point_padRight (Point p) n = Inr (Point (p @ replicate (nat n) 0))"
| "Point_padRight _ n = Inl TypeError"

fun addCoordinate :: "real \<Rightarrow> element \<Rightarrow> error + element" where
  "addCoordinate x (Point p) = Inr (Point (p @ [x]))"
| "addCoordinate x _ = Inl TypeError"

fun mapE :: "('a \<Rightarrow> error + 'b) \<Rightarrow> 'a list \<Rightarrow> error + 'b list" where
  "mapE f [] = Inr []"
| "mapE f (x # xs) =
     (case f x of Inl e \<Rightarrow> Inl e
      | Inr y \<Rightarrow> (case mapE f xs of Inl e \<Rightarrow> Inl e | Inr ys \<Rightarrow> Inr (y # ys)))"

section \<open>Degenerate polytopes and the dyad (Build)\<close>

definition nullitope :: PolytopeC where
  "nullitope = newPolytopeC [] (Codename ''nullitope'')"


text \<open>\<open>dyad(length)\<close>: the argument defaults to 1 and is halved.\<close>

definition dyad :: "real option \<Rightarrow> PolytopeC" where
  "dyad len =
     (let l = (case len of None \<Rightarrow> 0.5 | Some x \<Rightarrow> x / 2)
      in newPolytopeC [[Point [- l], Point [l]], [Facets [Num 0, Num 1]]] (Codename ''dyad''))"

section \<open>The prism product (Product.ts)\<close>

text \<open>
  \<open>memoizer: number[][]\<close> is a sparse array of sparse arrays: a row is missing
  (\<open>None\<close>) or an array whose unset slots read \<open>undefined\<close>.
\<close>

type_synonym memoizer = "nat \<Rightarrow> (nat \<Rightarrow> jsval) option"

definition emptyMemoizer :: memoizer where
  "emptyMemoizer = (\<lambda>_. None)"

definition rowOf :: "memoizer \<Rightarrow> nat \<Rightarrow> nat \<Rightarrow> jsval" where
  "rowOf memo m = (case memo m of Some r \<Rightarrow> r | None \<Rightarrow> (\<lambda>_. Undefined))"

definition getIndexOfPrismProduct ::
  "nat \<Rightarrow> jsval \<Rightarrow> nat \<Rightarrow> jsval \<Rightarrow> PolytopeC \<Rightarrow> PolytopeC \<Rightarrow> memoizer
     \<Rightarrow> error + (jsval \<times> memoizer)" where
  "getIndexOfPrismProduct m i n j P Q memo =
     (case rankOf Q n of
        None \<Rightarrow> Inl TypeError
      | Some Qn \<Rightarrow>
          let offset = js_add (js_mul i (Num (int (length Qn)))) j;
              row = rowOf memo m
          in if memo m \<noteq> None \<and> truthy (row n) then Inr (js_add (row n) offset, memo)
             else if m = 0 \<or> int n = int (length (elementList Q)) - 1
               then Inr (js_add (Num 0) offset, memo(m \<mapsto> row(n := Num 0)))
             else (case (memo (m - 1), rankOf P (m - 1), rankOf Q (n + 1)) of
                     (Some prev, Some Pm1, Some Qn1) \<Rightarrow>
                       let v = js_add (prev (n + 1)) (Num (int (length Pm1) * int (length Qn1)))
                       in Inr (js_add v offset, memo(m \<mapsto> row(n := v)))
                   | _ \<Rightarrow> Inl TypeError))"

text \<open>One \<open>for k\<close> loop: each facet index is looked up and pushed onto \<open>indices\<close>.\<close>

fun pushIndices ::
  "('a \<Rightarrow> memoizer \<Rightarrow> error + (jsval \<times> memoizer)) \<Rightarrow> 'a list
     \<Rightarrow> jsval list \<times> memoizer \<Rightarrow> error + (jsval list \<times> memoizer)" where
  "pushIndices get [] s = Inr s"
| "pushIndices get (f # fs) s =
     (case get f (snd s) of
        Inl e \<Rightarrow> Inl e
      | Inr (v, memo') \<Rightarrow> pushIndices get fs (fst s @ [v], memo'))"

text \<open>The body of the innermost loop of \<open>_prism\<close>: the facets of one product cell.\<close>

definition prismCell ::
  "nat \<Rightarrow> nat \<Rightarrow> nat \<Rightarrow> nat \<Rightarrow> PolytopeC \<Rightarrow> PolytopeC \<Rightarrow> element \<Rightarrow> element \<Rightarrow> memoizer
     \<Rightarrow> error + (jsval list \<times> memoizer)" where
  "prismCell m i n j P Q Pmi Qnj memo =
     (case (if m \<noteq> 0
            then pushIndices (\<lambda>f. getIndexOfPrismProduct (m - 1) f n (Num (int j)) P Q)
                   (facetsOf Pmi) ([], memo)
            else Inr ([], memo)) of
        Inl e \<Rightarrow> Inl e
      | Inr s \<Rightarrow>
          if n \<noteq> 0
          then pushIndices (\<lambda>f. getIndexOfPrismProduct m (Num (int i)) (n - 1) f P Q)
                 (facetsOf Qnj) s
          else Inr s)"

definition prismStep ::
  "PolytopeC \<Rightarrow> PolytopeC \<Rightarrow> nat \<Rightarrow> nat \<Rightarrow> element list \<Rightarrow> element list \<Rightarrow> nat \<Rightarrow> nat
     \<Rightarrow> ElementList \<times> memoizer \<Rightarrow> error + (ElementList \<times> memoizer)" where
  "prismStep P Q m n Pm Qn i j s =
     (case prismCell m i n j P Q (Pm ! i) (Qn ! j) (snd s) of
        Inl e \<Rightarrow> Inl e
      | Inr (indices, memo') \<Rightarrow>
          (case pushTo (m + n) (Facets indices) (fst s) of
             Inl e \<Rightarrow> Inl e
           | Inr els' \<Rightarrow> Inr (els', memo')))"

text \<open>The loops over \<open>i\<close> and \<open>j\<close> for one pair of ranks \<open>(m, n)\<close>.\<close>

definition prismPair ::
  "PolytopeC \<Rightarrow> PolytopeC \<Rightarrow> nat \<Rightarrow> nat
     \<Rightarrow> ElementList \<times> memoizer \<Rightarrow> error + (ElementList \<times> memoizer)" where
  "prismPair P Q m n s =
     (case rankOf P m of
        None \<Rightarrow> Inl TypeError
      | Some Pm \<Rightarrow>
          foldE (\<lambda>i s1.
                   case rankOf Q n of
                     None \<Rightarrow> Inl TypeError
                   | Some Qn \<Rightarrow> foldE (prismStep P Q m n Pm Qn i) [0..<length Qn] s1)
            [0..<length Pm] s)"

definition prismVertices :: "element list \<Rightarrow> element list \<Rightarrow> error + element list" where
  "prismVertices P0 Q0 =
     foldE (\<lambda>p vs. foldE (\<lambda>q vs1. case Point_product p q of
                                     Inl e \<Rightarrow> Inl e
                                   | Inr v \<Rightarrow> Inr (vs1 @ [v])) Q0 vs) P0 []"

definition unnamed :: ConstructionNode where
  "unnamed = Name ''unknown''"

definition prism_aux :: "PolytopeC \<Rightarrow> PolytopeC \<Rightarrow> error + PolytopeC" where
  "prism_aux P Q =
     (if dimensions P = 0 then Inr Q
      else if dimensions Q = 0 then Inr P
      else (case (rankOf P 0, rankOf Q 0) of
              (Some P0, Some Q0) \<Rightarrow>
                (case prismVertices P0 Q0 of
                   Inl e \<Rightarrow> Inl e
                 | Inr vs \<Rightarrow>
                     (case foldE (\<lambda>m. foldE (prismPair P Q m)
                                        [(if m = 0 then 1 else 0)..<nat (dimensions Q + 1)])
                             [0..<nat (dimensions P + 1)]
                             (vs # replicate (nat (dimensions P + dimensions Q)) [], emptyMemoizer) of
                        Inl e \<Rightarrow> Inl e
                      | Inr (els, memo) \<Rightarrow> Inr (newPolytopeC els unnamed)))
            | _ \<Rightarrow> Inr nullitope))"

section \<open>The tegum and pyramid products (Product.ts)\<close>

text \<open>
  \<open>getIndexOfTegumProduct\<close>: the ranks \<open>m\<close> and \<open>n\<close> start at \<open>-1\<close> (the
  nullitope) and are shifted by one before they index the memoizer.
\<close>

definition getIndexOfTegumProduct ::
  "int \<Rightarrow> jsval \<Rightarrow> int \<Rightarrow> jsval \<Rightarrow> PolytopeC \<Rightarrow> PolytopeC \<Rightarrow> memoizer \<Rightarrow> bool
     \<Rightarrow> error + (jsval \<times> memoizer)" where
  "getIndexOfTegumProduct m i n j P Q memo tegumMode =
     (case (if m = - 1 then Inr j
            else if n = - 1 then Inr i
            else (case rankOf Q (nat n) of
                    None \<Rightarrow> Inl TypeError
                  | Some Qn \<Rightarrow> Inr (js_add (js_mul i (Num (int (length Qn)))) j))) of
        Inl e \<Rightarrow> Inl e
      | Inr offset \<Rightarrow>
          let m' = nat (m + 1); n' = nat (n + 1); row = rowOf memo m'
          in if memo m' \<noteq> None \<and> truthy (row n') then Inr (js_add (row n') offset, memo)
             else if m' = 0 \<or>
                     int n' = int (length (elementList Q)) - (if tegumMode then 1 else 0)
               then Inr (js_add (Num 0) offset, memo(m' \<mapsto> row(n' := Num 0)))
             else if m' = 1
               then (case (memo 0, rankOf Q n') of
                       (Some prev, Some Qn) \<Rightarrow>
                         let v = js_add (prev (n' + 1)) (Num (int (length Qn)))
                         in Inr (js_add v offset, memo(m' \<mapsto> row(n' := v)))
                     | _ \<Rightarrow> Inl TypeError)
             else (case (memo (m' - 1), rankOf P (m' - 2), rankOf Q n') of
                     (Some prev, Some Pm2, Some Qn) \<Rightarrow>
                       let v = js_add (prev (n' + 1)) (Num (int (length Pm2) * int (length Qn)))
                       in Inr (js_add v offset, memo(m' \<mapsto> row(n' := v)))
                   | _ \<Rightarrow> Inl TypeError))"

text \<open>
  \<open>mDimCount\<close>: every polytope has a single nullitope; otherwise the length of the
  rank list.
\<close>

definition dimCount :: "PolytopeC \<Rightarrow> int \<Rightarrow> nat option" where
  "dimCount P m = (if m = - 1 then Some 1 else map_option length (rankOf P (nat m)))"

text \<open>
  The subelement indices the \<open>k\<close> loop runs over: none for the nullitope, the zeroth
  nullitope for a vertex, the facets of the cell otherwise.
\<close>

definition subIndices :: "PolytopeC \<Rightarrow> int \<Rightarrow> nat \<Rightarrow> jsval list" where
  "subIndices P m i =
     (if m = - 1 then [] else if m = 0 then [Num 0]
      else facetsOf (elementList P ! nat m ! i))"

definition tegumCell ::
  "bool \<Rightarrow> int \<Rightarrow> nat \<Rightarrow> int \<Rightarrow> nat \<Rightarrow> PolytopeC \<Rightarrow> PolytopeC \<Rightarrow> memoizer
     \<Rightarrow> error + (jsval list \<times> memoizer)" where
  "tegumCell tegumMode m i n j P Q memo =
     (case pushIndices (\<lambda>f memo. getIndexOfTegumProduct (m - 1) f n (Num (int j)) P Q memo tegumMode)
             (subIndices P m i) ([], memo) of
        Inl e \<Rightarrow> Inl e
      | Inr s \<Rightarrow>
          pushIndices (\<lambda>f memo. getIndexOfTegumProduct m (Num (int i)) (n - 1) f P Q memo tegumMode)
            (subIndices Q n j) s)"

definition tegumStep ::
  "bool \<Rightarrow> PolytopeC \<Rightarrow> PolytopeC \<Rightarrow> int \<Rightarrow> int \<Rightarrow> nat \<Rightarrow> nat
     \<Rightarrow> ElementList \<times> memoizer \<Rightarrow> error + (ElementList \<times> memoizer)" where
  "tegumStep tegumMode P Q m n i j s =
     (case tegumCell tegumMode m i n j P Q (snd s) of
        Inl e \<Rightarrow> Inl e
      | Inr (indices, memo') \<Rightarrow>
          (case pushTo (nat (m + n + 1)) (Facets indices) (fst s) of
             Inl e \<Rightarrow> Inl e
           | Inr els' \<Rightarrow> Inr (els', memo')))"

text \<open>One iteration of the loop over \<open>m\<close>, with the loop over \<open>n\<close> inside.\<close>

definition tegumRow ::
  "bool \<Rightarrow> PolytopeC \<Rightarrow> PolytopeC \<Rightarrow> int list \<Rightarrow> int
     \<Rightarrow> ElementList \<times> memoizer \<Rightarrow> error + (ElementList \<times> memoizer)" where
  "tegumRow tegumMode P Q ns m s =
     (case dimCount P m of
        None \<Rightarrow> Inl TypeError
      | Some mDimCount \<Rightarrow>
          foldE (\<lambda>n s1.
                   if m + n < 0 then Inr s1
                   else (case dimCount Q n of
                           None \<Rightarrow> Inl TypeError
                         | Some nDimCount \<Rightarrow>
                             foldE (\<lambda>i. foldE (tegumStep tegumMode P Q m n i) [0..<nDimCount])
                               [0..<mDimCount] s1))
            ns s)"

text \<open>
  The components of a tegum product: the compounds of \<open>P\<close> times the compounds of
  \<open>Q\<close>. The inner loop over \<open>l\<close> reads \<open>Q_.elementList[n][j][k]\<close>, with the outer
  loop's \<open>k\<close>.
\<close>

definition tegumComponentPairs :: "PolytopeC \<Rightarrow> PolytopeC \<Rightarrow> nat \<Rightarrow> nat \<Rightarrow> nat \<Rightarrow> nat
     \<Rightarrow> (jsval \<times> jsval) list" where
  "tegumComponentPairs P Q m n i j =
     (let iElCount = (if m = 0 then 1 else length (facetsOf (elementList P ! m ! i)));
          jElCount = (if n = 0 then 1 else length (facetsOf (elementList Q ! n ! j)))
      in concat (map (\<lambda>k. replicate jElCount
                            (if m = 0 then Num 0 else nthJs (facetsOf (elementList P ! m ! i)) k,
                             if n = 0 then Num 0 else nthJs (facetsOf (elementList Q ! n ! j)) k))
                   [0..<iElCount]))"

definition tegumComponentStep ::
  "PolytopeC \<Rightarrow> PolytopeC \<Rightarrow> nat \<Rightarrow> nat \<Rightarrow> nat \<Rightarrow> nat
     \<Rightarrow> ElementList \<times> memoizer \<Rightarrow> error + (ElementList \<times> memoizer)" where
  "tegumComponentStep P Q m n i j s =
     (case pushIndices
             (\<lambda>(a, b) memo. getIndexOfTegumProduct (int m - 1) a (int n - 1) b P Q memo True)
             (tegumComponentPairs P Q m n i j) ([], snd s) of
        Inl e \<Rightarrow> Inl e
      | Inr (indices, memo') \<Rightarrow>
          (case pushTo (m + n) (Facets indices) (fst s) of
             Inl e \<Rightarrow> Inl e
           | Inr els' \<Rightarrow> Inr (els', memo')))"

definition tegumComponents ::
  "PolytopeC \<Rightarrow> PolytopeC \<Rightarrow> ElementList \<times> memoizer \<Rightarrow> error + (ElementList \<times> memoizer)" where
  "tegumComponents P Q s =
     (let m = length (elementList P) - 1; n = length (elementList Q) - 1
      in foldE (\<lambda>i. foldE (tegumComponentStep P Q m n i) [0..<length (elementList Q ! n)])
           [0..<length (elementList P ! m)] s)"

definition tegumVertices :: "PolytopeC \<Rightarrow> PolytopeC \<Rightarrow> element list \<Rightarrow> element list
     \<Rightarrow> error + element list" where
  "tegumVertices P Q P0 Q0 =
     (case mapE (\<lambda>q. Point_padLeft q (spaceDimensions P)) Q0 of
        Inl e \<Rightarrow> Inl e
      | Inr qs \<Rightarrow>
          (case mapE (\<lambda>p. Point_padRight p (spaceDimensions Q)) P0 of
             Inl e \<Rightarrow> Inl e
           | Inr ps \<Rightarrow> Inr (qs @ ps)))"

definition tegum_aux :: "PolytopeC \<Rightarrow> PolytopeC \<Rightarrow> error + PolytopeC" where
  "tegum_aux P Q =
     (if dimensions P \<le> 0 \<or> rankOf Q 0 = None then Inr Q
      else if dimensions Q \<le> 0 \<or> rankOf P 0 = None then Inr P
      else (case tegumVertices P Q (elementList P ! 0) (elementList Q ! 0) of
              Inl e \<Rightarrow> Inl e
            | Inr vs \<Rightarrow>
                (case foldE (tegumRow True P Q [- 1..dimensions Q - 1]) [- 1..dimensions P - 1]
                        (vs # replicate (nat (dimensions P + dimensions Q)) [], emptyMemoizer) of
                   Inl e \<Rightarrow> Inl e
                 | Inr s \<Rightarrow>
                     (case tegumComponents P Q s of
                        Inl e \<Rightarrow> Inl e
                      | Inr (els, memo) \<Rightarrow> Inr (newPolytopeC els unnamed)))))"

definition pyramidVertices :: "PolytopeC \<Rightarrow> PolytopeC \<Rightarrow> element list \<Rightarrow> element list
     \<Rightarrow> error + element list" where
  "pyramidVertices P Q P0 Q0 =
     (case mapE (\<lambda>q. case Point_padLeft q (spaceDimensions P) of
                        Inl e \<Rightarrow> Inl e | Inr v \<Rightarrow> addCoordinate 1 v) Q0 of
        Inl e \<Rightarrow> Inl e
      | Inr qs \<Rightarrow>
          (case mapE (\<lambda>p. case Point_padRight p (spaceDimensions Q) of
                             Inl e \<Rightarrow> Inl e | Inr v \<Rightarrow> addCoordinate (- 1) v) P0 of
             Inl e \<Rightarrow> Inl e
           | Inr ps \<Rightarrow> Inr (qs @ ps)))"

definition pyramid_aux :: "PolytopeC \<Rightarrow> PolytopeC \<Rightarrow> error + PolytopeC" where
  "pyramid_aux P Q =
     (if dimensions P = - 1 \<or> rankOf P 0 = None then Inr Q
      else if dimensions Q = - 1 \<or> rankOf Q 0 = None then Inr P
      else (case pyramidVertices P Q (elementList P ! 0) (elementList Q ! 0) of
              Inl e \<Rightarrow> Inl e
            | Inr vs \<Rightarrow>
                (case foldE (tegumRow False P Q [- 1..dimensions Q]) [- 1..dimensions P]
                        (vs # replicate (nat (dimensions P + dimensions Q + 1)) [], emptyMemoizer) of
                   Inl e \<Rightarrow> Inl e
                 | Inr (els, memo) \<Rightarrow> Inr (newPolytopeC els unnamed))))"

section \<open>Products of several polytopes\<close>

text \<open>
  \<open>_product\<close> pops the operands from the end of the array and folds them from the
  right; the construction of the result lists the operands' constructions in the order
  they were popped.
\<close>

definition product_aux ::
  "PolytopeC list \<Rightarrow> (ConstructionNode list \<Rightarrow> ConstructionNode)
     \<Rightarrow> (PolytopeC \<Rightarrow> PolytopeC \<Rightarrow> error + PolytopeC) \<Rightarrow> error + PolytopeC" where
  "product_aux Ps type fn =
     (case rev Ps of
        [] \<Rightarrow> Inr nullitope
      | res # rest \<Rightarrow>
          (case foldE (\<lambda>pop s. case fn pop (fst s) of
                                 Inl e \<Rightarrow> Inl e
                               | Inr r \<Rightarrow> Inr (r, snd s @ [construction pop]))
                  rest (res, [construction res]) of
             Inl e \<Rightarrow> Inl e
           | Inr (r, constructions) \<Rightarrow> Inr (r\<lparr>construction := type constructions\<rparr>)))"

definition prism :: "PolytopeC list \<Rightarrow> error + PolytopeC" where
  "prism Ps = product_aux Ps Multiprism prism_aux"

definition tegum :: "PolytopeC list \<Rightarrow> error + PolytopeC" where
  "tegum Ps = product_aux Ps Multitegum tegum_aux"

definition pyramid :: "PolytopeC list \<Rightarrow> error + PolytopeC" where
  "pyramid Ps = product_aux Ps Multipyramid pyramid_aux"

section \<open>Saving as OFF (OFF.ts)\<close>

text \<open>
  \<open>saveAsOFF\<close> first compares the ambient dimension with the rank and throws when the
  ambient dimension is larger. Everything after the guard builds the text of the file and
  hands it to the file library; the text depends on the translation tables and on the
  printing of floating-point numbers, which are not among the sources, so the writer is a
  parameter \<open>writeData\<close> (it may throw), as is the name of the file. The function reads
  the polytope and never assigns to it; the state it changes is the file library's.
\<close>

record Library =
  fileName :: string
  savedBlobs :: "string list list"

definition OFF_message :: string where
  "OFF_message =
     ''The OFF format does not support polytopes in spaces with more dimensions than themselves.''"

definition saveAsOFF ::
  "(PolytopeC \<Rightarrow> bool \<Rightarrow> error + string list) \<Rightarrow> (PolytopeC \<Rightarrow> string)
     \<Rightarrow> PolytopeC \<Rightarrow> bool \<Rightarrow> Library \<Rightarrow> (error + unit) \<times> PolytopeC \<times> Library" where
  "saveAsOFF writeData getName P comments lib =
     (if spaceDimensions P > dimensions P then (Inl (Error OFF_message), P, lib)
      else (case writeData P comments of
              Inl e \<Rightarrow> (Inl e, P, lib)
            | Inr data \<Rightarrow>
                (Inr (), P,
                 lib\<lparr>fileName := getName P @ ''.off'', savedBlobs := savedBlobs lib @ [data]\<rparr>)))"

section \<open>Bit operations of JavaScript\<close>

text \<open>
  The operators \<open>&\<close>, \<open>^\<close> and \<open>~\<close> convert their operands to signed 32-bit
  integers (the conversion wraps modulo \<open>2^32\<close>) and return a signed 32-bit integer.
\<close>

definition js_and :: "int \<Rightarrow> int \<Rightarrow> int" where
  "js_and a b = sint ((word_of_int a :: 32 word) AND word_of_int b)"

definition js_xor :: "int \<Rightarrow> int \<Rightarrow> int" where
  "js_xor a b = sint ((word_of_int a :: 32 word) XOR word_of_int b)"

definition js_not :: "int \<Rightarrow> int" where
  "js_not a = sint (NOT (word_of_int a :: 32 word))"

lemma and_pred_less: "(w :: 32 word) \<noteq> 0 \<Longrightarrow> w AND (w - 1) < w"
  using less_eq_dec_iff word_and_le1 by blast

lemma js_and_pred_decreases:
  assumes "0 < js_and t (t - 1)"
  shows "unat (word_of_int (js_and t (t - 1)) :: 32 word) < unat (word_of_int t :: 32 word)"
proof -
  let ?w = "word_of_int t :: 32 word"
  have eq: "(word_of_int (js_and t (t - 1)) :: 32 word) = ?w AND (?w - 1)"
    by (simp add: js_and_def wi_hom_syms)
  have "?w \<noteq> 0"
    using assms by (auto simp: js_and_def wi_hom_syms)
  then have "?w AND (?w - 1) < ?w"
    by (rule and_pred_less)
  then show ?thesis
    by (simp add: eq word_less_nat_alt)
qed

text \<open>
  The loop 
  \<open>do { elementDimension++; elemVertices.push(t & ~(t - 1)); t = t & (t - 1); } while (t > 0)\<close>
  of the builders: it strips the lowest set bit of \<open>t\<close> until nothing positive is left.
\<close>

function lowBits :: "int \<Rightarrow> int \<times> int list \<Rightarrow> int \<times> int list" where
  "lowBits t s =
     (let s' = (fst s + 1, snd s @ [js_and t (js_not (t - 1))]);
          t' = js_and t (t - 1)
      in if t' > 0 then lowBits t' s' else s')"
  by pat_completeness auto
termination
  by (relation "measure (\<lambda>(t, s). unat (word_of_int t :: 32 word))")
     (auto simp: js_and_pred_decreases)

section \<open>Primitive builders (polytopeBuild.js)\<close>

text \<open>
  A location table with two indices is a sparse array of sparse arrays; reading or
  writing through a missing row throws.
\<close>

type_synonym locations2 = "int \<Rightarrow> (int \<Rightarrow> jsval) option"

definition lookup2 :: "locations2 \<Rightarrow> int \<Rightarrow> int \<Rightarrow> error + jsval" where
  "lookup2 loc a b = (case loc a of None \<Rightarrow> Inl TypeError | Some row \<Rightarrow> Inr (row b))"

definition store2 :: "locations2 \<Rightarrow> int \<Rightarrow> int \<Rightarrow> jsval \<Rightarrow> error + locations2" where
  "store2 loc a b v =
     (case loc a of None \<Rightarrow> Inl TypeError | Some row \<Rightarrow> Inr (loc(a \<mapsto> row(b := v))))"

definition emptyRow :: "int \<Rightarrow> jsval" where
  "emptyRow = (\<lambda>_. Undefined)"

text \<open>\<open>els[k].length\<close> and \<open>els[k].push(e)\<close> for a computed rank \<open>k\<close>.\<close>

definition rankLength :: "ElementList \<Rightarrow> int \<Rightarrow> error + jsval" where
  "rankLength els k =
     (if 0 \<le> k \<and> nat k < length els then Inr (Num (int (length (els ! nat k))))
      else Inl TypeError)"

definition pushToRank :: "int \<Rightarrow> element \<Rightarrow> ElementList \<Rightarrow> error + ElementList" where
  "pushToRank k e els = (if 0 \<le> k then pushTo (nat k) e els else Inl TypeError)"

subsection \<open>Hypercube\<close>

definition hypercubeCoordinates :: "nat \<Rightarrow> nat \<Rightarrow> real list" where
  "hypercubeCoordinates dims j =
     map (\<lambda>k. if j mod 2 ^ k < 2 ^ (k - 1) then 0.5 else - 0.5) [1..<dims + 1]"

definition hypercubeStep ::
  "nat \<Rightarrow> nat \<Rightarrow> nat \<Rightarrow> ElementList \<times> locations2 \<Rightarrow> error + (ElementList \<times> locations2)" where
  "hypercubeStep dims i j s =
     (if i = 0
      then (case pushTo 0 (Point (hypercubeCoordinates dims j)) (fst s) of
              Inl e \<Rightarrow> Inl e
            | Inr els' \<Rightarrow>
                Inr (els', (snd s)(int j \<mapsto> emptyRow(0 := Num (int (length (fst s ! 0)))))))
      else if js_and (int j) (int i) \<noteq> 0 then Inr s
      else
        (let ds = lowBits (int i) (0, []) in
         case mapE (\<lambda>df. lookup2 (snd s) (int j) (js_xor (int i) df)) (snd ds) of
           Inl e \<Rightarrow> Inl e
         | Inr facets1 \<Rightarrow>
         (case mapE (\<lambda>df. lookup2 (snd s) (js_xor (int j) df) (js_xor (int i) df)) (snd ds) of
            Inl e \<Rightarrow> Inl e
          | Inr facets2 \<Rightarrow>
          (case rankLength (fst s) (fst ds) of
             Inl e \<Rightarrow> Inl e
           | Inr len \<Rightarrow>
           (case store2 (snd s) (int j) (int i) len of
              Inl e \<Rightarrow> Inl e
            | Inr loc' \<Rightarrow>
            (case pushToRank (fst ds) (Facets (facets1 @ facets2)) (fst s) of
               Inl e \<Rightarrow> Inl e
             | Inr els' \<Rightarrow> Inr (els', loc')))))))"

definition hypercube :: "nat \<Rightarrow> error + PolytopeC" where
  "hypercube dims =
     (case foldE (\<lambda>i. foldE (hypercubeStep dims i) [0..<2 ^ dims]) [0..<2 ^ dims]
             (replicate (dims + 1) [], \<lambda>_. None) of
        Inl e \<Rightarrow> Inl e
      | Inr s \<Rightarrow> Inr (newPolytopeC (fst s) (Hypercube dims)))"

subsection \<open>Simplex\<close>

definition simplexAux :: "nat \<Rightarrow> real" where
  "simplexAux i = 1 / sqrt (2 * real i * (real i + 1))"

definition simplexVertex :: "nat \<Rightarrow> nat \<Rightarrow> element" where
  "simplexVertex dims i =
     Point (map (\<lambda>j. if j > i then - simplexAux j
                     else if j = i then real j * simplexAux j else 0) [1..<dims + 1])"

text \<open>\<open>locations[Math.pow(2, i)] = i\<close> for the vertices.\<close>

definition simplexLocations :: "nat \<Rightarrow> int \<Rightarrow> jsval" where
  "simplexLocations dims = fold (\<lambda>i loc. loc(2 ^ i := Num (int i))) [0..<dims + 1] emptyRow"

definition simplexStep ::
  "nat \<Rightarrow> ElementList \<times> (int \<Rightarrow> jsval) \<Rightarrow> error + (ElementList \<times> (int \<Rightarrow> jsval))" where
  "simplexStep i s =
     (if js_and (int i) (int i - 1) = 0 then Inr s
      else
        (let vs = lowBits (int i) (- 1, []);
             facets = map (\<lambda>v. snd s (js_xor (int i) v)) (snd vs)
         in case rankLength (fst s) (fst vs) of
              Inl e \<Rightarrow> Inl e
            | Inr len \<Rightarrow>
              (case pushToRank (fst vs) (Facets facets) (fst s) of
                 Inl e \<Rightarrow> Inl e
               | Inr els' \<Rightarrow> Inr (els', (snd s)(int i := len)))))"

definition simplex :: "nat \<Rightarrow> error + PolytopeC" where
  "simplex dims =
     (case foldE simplexStep [1..<2 ^ (dims + 1)]
             (map (simplexVertex dims) [0..<dims + 1] # replicate dims [], simplexLocations dims) of
        Inl e \<Rightarrow> Inl e
      | Inr s \<Rightarrow> Inr (newPolytopeC (fst s) (Simplex dims)))"

subsection \<open>Cross-polytope\<close>





subsection \<open>Regular polygons and compounds\<close>

text \<open>
  \<open>regularPolygon(n, d, s)\<close>. \<open>Math.gcd\<close> is not among the sources and is taken to be
  the greatest common divisor; the coordinates are real numbers. The state of the two
  loops is the edge list, the component list, \<open>counter\<close>, \<open>x\<close> and \<open>y\<close>.
\<close>

record polygonState =
  edges :: "element list"
  comps :: "element list"
  counter :: nat
  px :: nat
  py :: nat

definition polygonEdge :: "nat \<Rightarrow> nat \<Rightarrow> polygonState \<times> jsval list \<Rightarrow> polygonState \<times> jsval list" where
  "polygonEdge n d sc =
     (let s = fst sc in
      (s\<lparr> edges := edges s @ [Facets [Num (int (px s)), Num (int (py s))]],
          px := py s,
          py := (if py s + d \<ge> n then py s + d - n else py s + d),
          counter := counter s + 1 \<rparr>,
       snd sc @ [Num (int (counter s))]))"

definition polygonComponent :: "nat \<Rightarrow> nat \<Rightarrow> nat \<Rightarrow> polygonState \<Rightarrow> polygonState" where
  "polygonComponent n d n_gcd s =
     (let sc = fold (\<lambda>j. polygonEdge n d) [0..<n_gcd] (s, []) in
      (fst sc)\<lparr> comps := comps (fst sc) @ [Facets (snd sc)],
                px := px (fst sc) + 1,
                py := py (fst sc) + 1 \<rparr>)"

definition polygonVertices :: "nat \<Rightarrow> nat \<Rightarrow> real \<Rightarrow> element list" where
  "polygonVertices n d s =
     (let t = 2 * pi / real n; invRad = 2 * sin (pi * real d / real n) / s
      in map (\<lambda>i. Point [cos (real i * t) / invRad, sin (real i * t) / invRad]) [0..<n])"

definition regularPolygon :: "nat \<Rightarrow> nat option \<Rightarrow> real option \<Rightarrow> PolytopeC" where
  "regularPolygon n dOpt sOpt =
     (let d = (case dOpt of None \<Rightarrow> 1 | Some d \<Rightarrow> d);
          g = (case dOpt of None \<Rightarrow> 1 | Some d \<Rightarrow> gcd n d);
          s = (case sOpt of None \<Rightarrow> 1 | Some s \<Rightarrow> s);
          final = fold (\<lambda>i. polygonComponent n d (n div g)) [0..<g]
                    \<lparr> edges = [], comps = [], counter = 0, px = 0, py = d \<rparr>
      in newPolytopeC [polygonVertices n d s, edges final, comps final] (Polygon n d))"

text \<open>The edge number \<open>j\<close> of the component that starts at the vertex \<open>c\<close>.\<close>

definition polygonEdgeOf :: "nat \<Rightarrow> nat \<Rightarrow> nat \<Rightarrow> nat \<Rightarrow> element" where
  "polygonEdgeOf n d c j =
     Facets [Num (int ((c + j * d) mod n)), Num (int ((c + (j + 1) * d) mod n))]"

section \<open>The connectivity detector (fileOperations.ts)\<close>

text \<open>
  \<open>checkCommonElements\<close> marks the entries of \<open>a\<close> in the dictionary \<open>vals\<close> and
  probes it with the entries of \<open>b\<close>; the keys of \<open>vals\<close> are the entries read,
  \<open>undefined\<close> for a read past the end. \<open>probe\<close> is one of its two loops: \<open>None\<close>
  when the loop returned \<open>true\<close>, the dictionary after the loop otherwise.
\<close>

fun probe :: "jsval list \<Rightarrow> jsval set \<Rightarrow> jsval set option" where
  "probe [] vals = Some vals"
| "probe (x # xs) vals = (if x \<in> vals then None else probe xs (insert x vals))"

definition checkCommonElements :: "jsval list \<Rightarrow> jsval list \<Rightarrow> bool" where
  "checkCommonElements a b =
     (case probe (tl a) {nthJs a 0} of
        None \<Rightarrow> True
      | Some vals \<Rightarrow>
          (case probe (butlast b) vals of
             None \<Rightarrow> True
           | Some vals' \<Rightarrow> nthJs b (length b - 1) \<in> vals'))"

text \<open>
  Modelled from the spec: the class \<open>GraphNode\<close> (\<open>connectTo\<close>, \<open>getComponent\<close>) is
  not among the sources. There is one node per facet; \<open>connectTo\<close> joins two nodes by an
  undirected edge; \<open>getComponent\<close> traverses from an unvisited node, visits each node
  once and returns the nodes reached, and returns nothing for a node already visited. A
  traversal over \<open>k\<close> nodes is complete after \<open>k\<close> rounds of adding neighbours.
\<close>

definition connected :: "jsval list list \<Rightarrow> nat \<Rightarrow> nat \<Rightarrow> bool" where
  "connected facets i j =
     (if i < j then checkCommonElements (facets ! i) (facets ! j)
      else if j < i then checkCommonElements (facets ! j) (facets ! i)
      else False)"

fun traverse :: "jsval list list \<Rightarrow> nat \<Rightarrow> nat list \<Rightarrow> nat list" where
  "traverse facets 0 seen = seen"
| "traverse facets (Suc k) seen =
     traverse facets k
       (seen @ filter (\<lambda>j. j \<notin> set seen \<and> (\<exists>i \<in> set seen. connected facets i j))
                 [0..<length facets])"

definition getComponents :: "jsval list list \<Rightarrow> nat list list" where
  "getComponents facets =
     fold (\<lambda>i cs. if i \<in> \<Union> (set (map set cs)) then cs
                  else cs @ [traverse facets (length facets) [i]])
       [0..<length facets] []"

section \<open>Combinatorial equality\<close>

text \<open>
  Two ranked element models are combinatorially equal when relabelling the entries of
  each rank by a permutation carries the facet set of every cell of the one onto the
  facet set of the corresponding cell of the other. Coordinates play no part.
\<close>

definition applyLabel :: "nat list \<Rightarrow> jsval \<Rightarrow> jsval" where
  "applyLabel p v =
     (case v of
        Num k \<Rightarrow> if 0 \<le> k \<and> nat k < length p then Num (int (p ! nat k)) else Undefined
      | _ \<Rightarrow> Undefined)"

definition isPermutation :: "nat list \<Rightarrow> nat \<Rightarrow> bool" where
  "isPermutation p n = (length p = n \<and> distinct p \<and> list_all (\<lambda>k. k < n) p)"

definition combinatoriallyEqualBy :: "nat list list \<Rightarrow> ElementList \<Rightarrow> ElementList \<Rightarrow> bool" where
  "combinatoriallyEqualBy perms A B =
     (length A = length B \<and> length perms = length A
      \<and> list_all (\<lambda>r. length (A ! r) = length (B ! r) \<and> isPermutation (perms ! r) (length (A ! r)))
          [0..<length A]
      \<and> list_all (\<lambda>r. list_all (\<lambda>c. set (map (applyLabel (perms ! (r - 1))) (facetsOf (A ! r ! c)))
                                      = set (facetsOf (B ! r ! (perms ! r ! c))))
                          [0..<length (A ! r)])
          [1..<length A])"

definition combinatoriallyEqual :: "ElementList \<Rightarrow> ElementList \<Rightarrow> bool" where
  "combinatoriallyEqual A B = (\<exists>perms. combinatoriallyEqualBy perms A B)"

text \<open>An entry that is a number (neither \<open>NaN\<close> nor \<open>undefined\<close>).\<close>

fun isNumber :: "jsval \<Rightarrow> bool" where
  "isNumber (Num k) = True"
| "isNumber _ = False"

section \<open>The index bookkeeping of the prism product\<close>

text \<open>
  The count of the index bookkeeping, written after the spec: \<open>count(m, n) = 0\<close> when
  \<open>m\<close> is the minimum rank or \<open>n\<close> is the maximum rank of \<open>Q\<close>, and
  \<open>count(m, n) = count(m - 1, n + 1) + |P rank m - 1| * |Q rank n + 1|\<close> otherwise.
\<close>

fun prismCount :: "PolytopeC \<Rightarrow> PolytopeC \<Rightarrow> nat \<Rightarrow> nat \<Rightarrow> nat" where
  "prismCount P Q 0 n = 0"
| "prismCount P Q (Suc m) n =
     (if n = length (elementList Q) - 1 then 0
      else prismCount P Q m (n + 1)
           + length (elementList P ! m) * length (elementList Q ! (n + 1)))"

text \<open>The index the bookkeeping assigns: the count plus the lexicographic offset.\<close>

definition prismIndex :: "PolytopeC \<Rightarrow> PolytopeC \<Rightarrow> nat \<Rightarrow> jsval \<Rightarrow> nat \<Rightarrow> jsval \<Rightarrow> jsval" where
  "prismIndex P Q m i n j =
     js_add (Num (int (prismCount P Q m n)))
       (js_add (js_mul i (Num (int (length (elementList Q ! n))))) j)"

text \<open>
  The states of the memoizer: every slot that has been set holds the count (\<open>memoOK\<close>);
  a slot is set (\<open>isSet\<close>); one memoizer has every slot set that another has
  (\<open>memoLe\<close>).
\<close>

definition memoOK :: "PolytopeC \<Rightarrow> PolytopeC \<Rightarrow> memoizer \<Rightarrow> bool" where
  "memoOK P Q memo =
     (\<forall>a row b. memo a = Some row \<longrightarrow> row b \<noteq> Undefined \<longrightarrow>
        row b = Num (int (prismCount P Q a b)))"

definition isSet :: "memoizer \<Rightarrow> nat \<Rightarrow> nat \<Rightarrow> bool" where
  "isSet memo a b = (\<exists>row. memo a = Some row \<and> row b \<noteq> Undefined)"

definition memoLe :: "memoizer \<Rightarrow> memoizer \<Rightarrow> bool" where
  "memoLe memo memo' = (\<forall>a b. isSet memo a b \<longrightarrow> isSet memo' a b)"

text \<open>Pushing one entry, or a block of entries, onto the list of rank \<open>r\<close>.\<close>

definition push1 :: "nat \<Rightarrow> element \<Rightarrow> ElementList \<Rightarrow> ElementList" where
  "push1 r e els = els[r := els ! r @ [e]]"

definition pushBlock :: "nat \<Rightarrow> element list \<Rightarrow> ElementList \<Rightarrow> ElementList" where
  "pushBlock r blk els = els[r := els ! r @ blk]"

text \<open>
  The facets of the product of the \<open>i\<close>-th \<open>m\<close>-element of \<open>P\<close> and the
  \<open>j\<close>-th \<open>n\<close>-element of \<open>Q\<close>: the index of (each facet of the first, the
  second), then the index of (the first, each facet of the second). \<open>prismBlock\<close> lists
  the products of one pair of ranks in the order of the loops over \<open>i\<close> and \<open>j\<close>.
\<close>

definition prismCellSpec :: "PolytopeC \<Rightarrow> PolytopeC \<Rightarrow> nat \<Rightarrow> nat \<Rightarrow> nat \<Rightarrow> nat \<Rightarrow> jsval list" where
  "prismCellSpec P Q m n i j =
     (if m \<noteq> 0
      then map (\<lambda>f. prismIndex P Q (m - 1) f n (Num (int j))) (facetsOf (elementList P ! m ! i))
      else [])
     @ (if n \<noteq> 0
        then map (\<lambda>f. prismIndex P Q m (Num (int i)) (n - 1) f) (facetsOf (elementList Q ! n ! j))
        else [])"

definition prismBlock :: "PolytopeC \<Rightarrow> PolytopeC \<Rightarrow> nat \<Rightarrow> nat \<Rightarrow> element list" where
  "prismBlock P Q m n =
     concat (map (\<lambda>i. map (\<lambda>j. Facets (prismCellSpec P Q m n i j))
                          [0..<length (elementList Q ! n)])
               [0..<length (elementList P ! m)])"

text \<open>Points and their coordinates.\<close>

fun isPoint :: "element \<Rightarrow> bool" where
  "isPoint (Point cs) = True"
| "isPoint (Facets fs) = False"

fun coordsOf :: "element \<Rightarrow> real list" where
  "coordsOf (Point cs) = cs"
| "coordsOf (Facets fs) = []"

text \<open>
  A non-degenerate polytope: its rank is the number of its rank lists minus one and is at
  least 1, no rank list is empty, the entries of rank 0 are points, and every cell of a
  higher rank has at least one facet. Nothing is asked of the values of the facet
  indices.
\<close>

definition nondegenerate :: "PolytopeC \<Rightarrow> bool" where
  "nondegenerate P =
     (dimensions P = int (length (elementList P)) - 1
      \<and> 2 \<le> length (elementList P)
      \<and> list_all (\<lambda>r. r \<noteq> []) (elementList P)
      \<and> list_all isPoint (elementList P ! 0)
      \<and> list_all (list_all (\<lambda>c. facetsOf c \<noteq> [])) (tl (elementList P)))"

text \<open>
  The element list that the loops of \<open>_prism\<close> build, written without the memoizer:
  the products of the vertices, then for each pair of ranks in the order of the loops the
  block of its products, pushed onto the rank \<open>m + n\<close>.
\<close>

definition prismPoints :: "PolytopeC \<Rightarrow> PolytopeC \<Rightarrow> element list" where
  "prismPoints P Q =
     concat (map (\<lambda>p. map (\<lambda>q. Point (coordsOf p @ coordsOf q)) (elementList Q ! 0))
               (elementList P ! 0))"

definition prismPure :: "PolytopeC \<Rightarrow> PolytopeC \<Rightarrow> ElementList" where
  "prismPure P Q =
     fold (\<lambda>m. fold (\<lambda>n. pushBlock (m + n) (prismBlock P Q m n))
                  [(if m = 0 then 1 else 0)..<length (elementList Q)])
       [0..<length (elementList P)]
       (prismPoints P Q # replicate (length (elementList P) + length (elementList Q) - 2) [])"

text \<open>The ranks \<open>m\<close> of \<open>P\<close> that contribute a block to the rank \<open>r\<close> of the product.\<close>

definition prismValid :: "nat \<Rightarrow> nat \<Rightarrow> nat \<Rightarrow> bool" where
  "prismValid N r m = (m \<le> r \<and> (if m = 0 then 1 else 0) \<le> r - m \<and> r - m < N)"

section \<open>The rows of the memoizer in the tegum and pyramid products\<close>

text \<open>
  \<open>getIndexOfTegumProduct\<close> reads \<open>memoizer[m][n + 1]\<close> before it writes
  \<open>memoizer[m + 1]\<close>, so the first read throws when the row \<open>m\<close> is missing. The
  rows that one memoizer has, another has too.
\<close>

definition rowsLe :: "memoizer \<Rightarrow> memoizer \<Rightarrow> bool" where
  "rowsLe memo memo' = (\<forall>a. memo a \<noteq> None \<longrightarrow> memo' a \<noteq> None)"

text \<open>
  The rank of \<open>Q\<close> at which the offset of \<open>getIndexOfTegumProduct\<close> is 0:
  \<open>Q.elementList.length - tegum\<close>.
\<close>

definition upperQ :: "bool \<Rightarrow> PolytopeC \<Rightarrow> int" where
  "upperQ mode Q = int (length (elementList Q)) - (if mode then 1 else 0)"

text \<open>
  The vertices that \<open>_tegum\<close> and \<open>_pyramid\<close> push, for operands whose vertices are
  points: the vertices of \<open>Q\<close> behind \<open>P.spaceDimensions\<close> zeros, then the vertices of
  \<open>P\<close> in front of \<open>Q.spaceDimensions\<close> zeros; the pyramid adds the height.
\<close>

definition tegumPoints :: "PolytopeC \<Rightarrow> PolytopeC \<Rightarrow> element list" where
  "tegumPoints P Q =
     map (\<lambda>q. Point (replicate (nat (spaceDimensions P)) 0 @ coordsOf q)) (elementList Q ! 0)
     @ map (\<lambda>p. Point (coordsOf p @ replicate (nat (spaceDimensions Q)) 0)) (elementList P ! 0)"

definition pyramidPoints :: "PolytopeC \<Rightarrow> PolytopeC \<Rightarrow> element list" where
  "pyramidPoints P Q =
     map (\<lambda>q. Point (replicate (nat (spaceDimensions P)) 0 @ coordsOf q @ [1])) (elementList Q ! 0)
     @ map (\<lambda>p. Point (coordsOf p @ replicate (nat (spaceDimensions Q)) 0 @ [- 1]))
         (elementList P ! 0)"

text \<open>
  The vertex list of the tegum product in the words of the specification: the vertices of
  \<open>Q\<close> with trailing zeros, as many as the ambient space of \<open>P\<close> has dimensions, followed
  by the vertices of \<open>P\<close> with leading zeros, as many as the ambient space of \<open>Q\<close> has
  dimensions.
\<close>

definition claimedTegumVertices :: "PolytopeC \<Rightarrow> PolytopeC \<Rightarrow> element list" where
  "claimedTegumVertices P Q =
     map (\<lambda>q. Point (coordsOf q @ replicate (nat (spaceDimensions P)) 0)) (elementList Q ! 0)
     @ map (\<lambda>p. Point (replicate (nat (spaceDimensions Q)) 0 @ coordsOf p)) (elementList P ! 0)"

section \<open>The set bits of an index\<close>

text \<open>
  The builders number the cells by bit masks. \<open>bitsOf n\<close> lists the powers of two that
  make up \<open>n\<close>, lowest first, and \<open>popcount n\<close> is their number.
\<close>

fun bitsOf :: "nat \<Rightarrow> nat list" where
  "bitsOf n = (if n = 0 then []
               else (if odd n then [1] else []) @ map ((*) 2) (bitsOf (n div 2)))"

declare bitsOf.simps [simp del]

definition popcount :: "nat \<Rightarrow> nat" where
  "popcount n = length (bitsOf n)"


section \<open>Well-formed references\<close>

text \<open>
  The invariant of the ranked element model: every index of a cell of rank \<open>r \<ge> 1\<close> is
  a number that points into the list of rank \<open>r - 1\<close>.
\<close>

definition validIndex :: "nat \<Rightarrow> jsval \<Rightarrow> bool" where
  "validIndex len v = (case v of Num k \<Rightarrow> 0 \<le> k \<and> k < int len | _ \<Rightarrow> False)"

definition validRefs :: "ElementList \<Rightarrow> bool" where
  "validRefs els =
     list_all (\<lambda>r. list_all (\<lambda>c. list_all (validIndex (length (els ! (r - 1)))) (facetsOf c))
                       (els ! r))
       [1..<length els]"

text \<open>A dyad whose only edge names the vertex 7 of its two vertices.\<close>

definition danglingDyad :: PolytopeC where
  "danglingDyad =
     newPolytopeC [[Point [- 1], Point [1]], [Facets [Num 0, Num 7]]] (Name ''dangling'')"

text \<open>A square, and the square whose face names the edge 99 of its four edges.\<close>

definition unitSquare :: PolytopeC where
  "unitSquare =
     newPolytopeC [[Point [0, 0], Point [1, 0], Point [0, 1], Point [1, 1]],
                   [Facets [Num 0, Num 1], Facets [Num 2, Num 3], Facets [Num 0, Num 2],
                    Facets [Num 1, Num 3]],
                   [Facets [Num 0, Num 1, Num 2, Num 3]]] (Name ''square'')"

definition danglingSquare :: PolytopeC where
  "danglingSquare =
     newPolytopeC [[Point [0, 0], Point [1, 0], Point [0, 1], Point [1, 1]],
                   [Facets [Num 0, Num 1], Facets [Num 2, Num 3], Facets [Num 0, Num 2],
                    Facets [Num 1, Num 3]],
                   [Facets [Num 0, Num 1, Num 2, Num 99]]] (Name ''square'')"

section \<open>Theorems\<close>

subsection \<open>Identity laws of the products\<close>


subsection \<open>Malformed operands of a product\<close>

text \<open>
  Counterexample to claim C1. The edge of \<open>danglingDyad\<close> refers to a vertex that does
  not exist, yet each of the three products with a dyad returns a polytope: the index 7
  goes through the index arithmetic unchecked (in the prism it becomes the vertices 14
  and 15 of a square that has four).
\<close>

theorem products_accept_dangling_index:
  "\<not> validRefs (elementList danglingDyad)
   \<and> map_sum id elementList (prism [danglingDyad, dyad None]) =
       Inr [[Point [- 1, - (1 / 2)], Point [- 1, 1 / 2], Point [1, - (1 / 2)], Point [1, 1 / 2]],
            [Facets [Num 0, Num 1], Facets [Num 2, Num 3], Facets [Num 0, Num 14],
             Facets [Num 1, Num 15]],
            [Facets [Num 0, Num 7, Num 2, Num 3]]]
   \<and> (case tegum [danglingDyad, dyad None] of Inl e \<Rightarrow> False | Inr R \<Rightarrow> True)
   \<and> (case pyramid [danglingDyad, dyad None] of Inl e \<Rightarrow> False | Inr R \<Rightarrow> True)"
  by code_simp

subsection \<open>Saving as OFF\<close>

text \<open>
  Claim C10. When the ambient dimension of the polytope exceeds its rank, \<open>saveAsOFF\<close>
  throws its error before anything is written: the file library is as it was and the
  polytope is the one passed in. When the ambient dimension is at most the rank, the
  export goes on to the writer, and a successful export saves exactly the writer's text.
\<close>

theorem saveAsOFF_guard:
  "(spaceDimensions P > dimensions P \<longrightarrow>
      saveAsOFF writeData getName P comments lib = (Inl (Error OFF_message), P, lib))
   \<and> (fst (saveAsOFF writeData getName P comments lib) = Inr () \<longrightarrow>
        spaceDimensions P \<le> dimensions P)
   \<and> (spaceDimensions P \<le> dimensions P \<longrightarrow>
        saveAsOFF writeData getName P comments lib =
          (case writeData P comments of
             Inl e \<Rightarrow> (Inl e, P, lib)
           | Inr data \<Rightarrow>
               (Inr (), P,
                lib\<lparr>fileName := getName P @ ''.off'', savedBlobs := savedBlobs lib @ [data]\<rparr>)))
   \<and> fst (snd (saveAsOFF writeData getName P comments lib)) = P"
  by (auto simp: saveAsOFF_def split: sum.splits)

theorem saveAsOFF_guard_witness:
  "saveAsOFF (\<lambda>P c. Inr [''2OFF'']) (\<lambda>P. ''Dyad'') ((dyad None)\<lparr>spaceDimensions := 3\<rparr>) False
     \<lparr>fileName = [], savedBlobs = []\<rparr>
     = (Inl (Error OFF_message), (dyad None)\<lparr>spaceDimensions := 3\<rparr>,
        \<lparr>fileName = [], savedBlobs = []\<rparr>)
   \<and> saveAsOFF (\<lambda>P c. Inr [''1OFF'']) (\<lambda>P. ''Dyad'') (dyad None) False
       \<lparr>fileName = [], savedBlobs = []\<rparr>
     = (Inr (), dyad None, \<lparr>fileName = ''Dyad.off'', savedBlobs = [[''1OFF'']]\<rparr>)"
  using saveAsOFF_guard [of "(dyad None)\<lparr>spaceDimensions := 3\<rparr>" "\<lambda>P c. Inr [''2OFF'']"
      "\<lambda>P. ''Dyad''" False "\<lparr>fileName = [], savedBlobs = []\<rparr>"]
    saveAsOFF_guard [of "dyad None" "\<lambda>P c. Inr [''1OFF'']"
      "\<lambda>P. ''Dyad''" False "\<lparr>fileName = [], savedBlobs = []\<rparr>"]
  by (simp add: dyad_def newPolytopeC_def Let_def)

subsection \<open>Regular polygons\<close>

lemma length_polygonVertices: "length (polygonVertices n d s) = n"
  by (simp add: polygonVertices_def)

lemma wrap_once:
  fixes a d n :: nat
  assumes "a < n" "d < n"
  shows "(if n \<le> a + d then a + d - n else a + d) = (a + d) mod n"
proof (cases "n \<le> a + d")
  case True
  then have "(a + d) mod n = (a + d - n) mod n" by (simp add: le_mod_geq)
  also have "\<dots> = a + d - n" using assms by (intro mod_less) linarith
  finally show ?thesis using True by simp
next
  case False
  then show ?thesis by simp
qed

lemma polygon_inner:
  assumes "d < n" "px s < n" "py s = (px s + d) mod n"
  shows "fold (\<lambda>j. polygonEdge n d) [0..<k] (s, cs) =
     (s\<lparr> edges := edges s @ map (polygonEdgeOf n d (px s)) [0..<k],
         px := (px s + k * d) mod n,
         py := (px s + (k + 1) * d) mod n,
         counter := counter s + k \<rparr>,
      cs @ map (\<lambda>j. Num (int (counter s + j))) [0..<k])"
proof (induction k)
  case 0
  then show ?case using assms by simp
next
  case (Suc k)
  have n0: "0 < n" using assms by simp
  have w: "(if n \<le> (px s + (k + 1) * d) mod n + d then (px s + (k + 1) * d) mod n + d - n
            else (px s + (k + 1) * d) mod n + d) = (px s + (Suc k + 1) * d) mod n"
  proof -
    let ?a = "(px s + (k + 1) * d) mod n"
    have "?a < n" using n0 by simp
    from wrap_once[OF this assms(1)]
    have "(if n \<le> ?a + d then ?a + d - n else ?a + d) = (?a + d) mod n" .
    also have "(?a + d) mod n = (px s + (k + 1) * d + d) mod n"
      by (rule mod_add_left_eq)
    also have "px s + (k + 1) * d + d = px s + (Suc k + 1) * d"
      by (simp add: algebra_simps)
    finally show ?thesis .
  qed
  have "fold (\<lambda>j. polygonEdge n d) [0..<Suc k] (s, cs)
        = polygonEdge n d (fold (\<lambda>j. polygonEdge n d) [0..<k] (s, cs))"
    by simp
  also have "\<dots> = (s\<lparr> edges := edges s @ map (polygonEdgeOf n d (px s)) [0..<Suc k],
         px := (px s + Suc k * d) mod n,
         py := (px s + (Suc k + 1) * d) mod n,
         counter := counter s + Suc k \<rparr>,
      cs @ map (\<lambda>j. Num (int (counter s + j))) [0..<Suc k])"
    unfolding Suc polygonEdge_def Let_def fst_conv snd_conv
    using w by (simp add: polygonEdgeOf_def split: if_splits)
  finally show ?case .
qed

lemma polygon_closes:
  fixes n d :: nat
  assumes "g = gcd n d"
  shows "(c + (n div g) * d) mod n = c mod n"
proof -
  have "g dvd d" "g dvd n" using assms by auto
  then obtain e where e: "d = g * e" by (auto elim: dvdE)
  have "(n div g) * d = n * e"
    using \<open>g dvd n\<close> e by (metis dvd_div_mult_self mult.assoc mult.commute)
  then show ?thesis by simp
qed

lemma polygon_room:
  fixes n d :: nat
  assumes "g = gcd n d" "d < n" "c < g"
  shows "c + d < n"
proof -
  have "g dvd n - d" using assms by (simp add: dvd_diff_nat)
  moreover have "0 < n - d" using assms by simp
  ultimately have "g \<le> n - d" by (rule dvd_imp_le)
  then show ?thesis using assms by linarith
qed

lemma polygon_component:
  assumes "g = gcd n d" "d < n" "px s < g" "py s = px s + d"
  shows "polygonComponent n d (n div g) s =
     s\<lparr> edges := edges s @ map (polygonEdgeOf n d (px s)) [0..<n div g],
        comps := comps s @ [Facets (map (\<lambda>j. Num (int (counter s + j))) [0..<n div g])],
        px := px s + 1,
        py := py s + 1,
        counter := counter s + n div g \<rparr>"
proof -
  have room: "px s + d < n" using assms by (auto intro: polygon_room)
  then have pn: "px s < n" by simp
  have py: "py s = (px s + d) mod n" using room assms by simp
  have c1: "(px s + (n div g) * d) mod n = px s"
    using polygon_closes[of g n d "px s"] assms pn by simp
  have "px s + (n div g + 1) * d = (px s + d) + (n div g) * d" by (simp add: algebra_simps)
  then have c2: "(px s + (n div g + 1) * d) mod n = py s"
    using polygon_closes[of g n d "px s + d"] assms room by (simp only: mod_less)
  show ?thesis
    unfolding polygonComponent_def polygon_inner[OF assms(2) pn py] Let_def fst_conv snd_conv c1 c2
    by simp
qed

lemma polygon_outer:
  assumes "g = gcd n d" "d < n" "k \<le> g"
  shows "fold (\<lambda>i. polygonComponent n d (n div g)) [0..<k]
           \<lparr> edges = [], comps = [], counter = 0, px = 0, py = d \<rparr> =
         \<lparr> edges = concat (map (\<lambda>c. map (polygonEdgeOf n d c) [0..<n div g]) [0..<k]),
           comps = map (\<lambda>c. Facets (map (\<lambda>j. Num (int (c * (n div g) + j))) [0..<n div g])) [0..<k],
           counter = k * (n div g), px = k, py = k + d \<rparr>"
  using assms(3)
proof (induction k)
  case 0
  then show ?case by simp
next
  case (Suc k)
  then have k: "k < g" by simp
  show ?case
    using Suc.IH k by (simp add: polygon_component[OF assms(1,2)] del: upt_Suc add: upt_Suc_append)
qed


lemma nth_concat_uniform:
  assumes "\<And>c. c < k \<Longrightarrow> length (f c) = m" "c < k" "j < m"
  shows "concat (map f [0..<k]) ! (c * m + j) = f c ! j"
  using assms
proof (induction k)
  case 0
  then show ?case by simp
next
  case (Suc k)
  have len: "length (concat (map f [0..<k])) = k * m"
    using Suc.prems(1) by (induction k) auto
  show ?case
  proof (cases "c < k")
    case True
    have "c * m + j < Suc c * m" using Suc.prems(3) by simp
    also have "Suc c * m \<le> k * m" using True by (intro mult_le_mono1) simp
    finally have "c * m + j < k * m" .
    then show ?thesis
      using Suc True len by (simp add: nth_append)
  next
    case False
    then have "c = k" using Suc.prems(2) by simp
    then show ?thesis
      using len by (simp add: nth_append)
  qed
qed

lemma polygon_vertices_distinct:
  fixes n d :: nat
  assumes "g = gcd n d" "0 < n" "j1 \<le> j2" "j2 < n div g"
    and eq: "(c + j1 * d) mod n = (c + j2 * d) mod n"
  shows "j1 = j2"
proof -
  have g0: "0 < g" using assms by simp
  have le: "c + j1 * d \<le> c + j2 * d" using assms by simp
  have "n dvd (c + j2 * d) - (c + j1 * d)"
    using mod_eq_dvd_iff_nat[OF le, of n] eq by simp
  moreover have "(c + j2 * d) - (c + j1 * d) = (j2 - j1) * d"
    by (simp add: diff_mult_distrib)
  ultimately have dv: "n dvd (j2 - j1) * d" by simp
  have gn: "g dvd n" and gd: "g dvd d" using assms by auto
  have n': "n = (n div g) * g" and d': "d = (d div g) * g" using gn gd by simp_all
  have "(n div g) * g dvd ((j2 - j1) * (d div g)) * g"
    using dv n' d' by (metis mult.assoc)
  then have "n div g dvd (j2 - j1) * (d div g)"
    using g0 by simp
  moreover have "coprime (n div g) (d div g)"
    unfolding assms(1) using assms(2) by (intro div_gcd_coprime) simp
  ultimately have "n div g dvd j2 - j1"
    by (simp add: coprime_dvd_mult_left_iff)
  moreover have "j2 - j1 < n div g" using assms by simp
  ultimately have "j2 - j1 = 0" by (meson dvd_imp_le not_less neq0_conv)
  then show ?thesis using assms by simp
qed

lemma polygon_vertex_class:
  fixes n d :: nat
  assumes "g = gcd n d" "c < g"
  shows "((c + j * d) mod n) mod g = c"
proof -
  have gn: "g dvd n" and gd: "g dvd d" using assms by auto
  have "((c + j * d) mod n) mod g = (c + j * d) mod g"
    using gn by (simp add: mod_mod_cancel)
  also have "\<dots> = c mod g"
  proof -
    from gd obtain e where "d = g * e" by (auto elim: dvdE)
    then have "c + j * d = c + g * (j * e)" by simp
    then show ?thesis by (simp only: mod_mult_self2)
  qed
  finally show ?thesis using assms by simp
qed

text \<open>
  Claim C7, for a step \<open>d < n\<close>. With \<open>g = gcd n d\<close>, the polygon has \<open>n\<close>
  vertices, \<open>n\<close> edges and \<open>g\<close> components. The component \<open>c\<close> lists the
  \<open>n div g\<close> consecutive edges from \<open>c * (n div g)\<close> on; its edge \<open>j\<close> joins
  the vertex \<open>(c + j * d) mod n\<close> to the vertex \<open>(c + (j + 1) * d) mod n\<close>, so
  each edge starts where the one before ends, and the last one ends at \<open>c\<close>, where
  the first starts. The \<open>n div g\<close> starting vertices are distinct, and all lie in the
  residue class of \<open>c\<close> modulo \<open>g\<close>, so different components share no vertex.
\<close>

theorem regularPolygon_compound:
  assumes "d < n" and "g = gcd n d" and "R = elementList (regularPolygon n (Some d) s)"
  shows "length R = 3 \<and> length (R ! 0) = n \<and> length (R ! 1) = n \<and> length (R ! 2) = g
     \<and> (\<forall>c<g. R ! 2 ! c = Facets (map (\<lambda>j. Num (int (c * (n div g) + j))) [0..<n div g])
            \<and> (\<forall>j<n div g. R ! 1 ! (c * (n div g) + j)
                   = Facets [Num (int ((c + j * d) mod n)), Num (int ((c + (j + 1) * d) mod n))])
            \<and> (c + (n div g) * d) mod n = c
            \<and> inj_on (\<lambda>j. (c + j * d) mod n) {0..<n div g}
            \<and> (\<forall>j. ((c + j * d) mod n) mod g = c))"
proof -
  have n0: "0 < n" using assms by simp
  have gn: "g dvd n" using assms by simp
  have R: "R = [polygonVertices n d (case s of None \<Rightarrow> 1 | Some s \<Rightarrow> s),
               concat (map (\<lambda>c. map (polygonEdgeOf n d c) [0..<n div g]) [0..<g]),
               map (\<lambda>c. Facets (map (\<lambda>j. Num (int (c * (n div g) + j))) [0..<n div g])) [0..<g]]"
    unfolding assms(3) regularPolygon_def Let_def
    using polygon_outer[OF assms(2) assms(1) order_refl]
    by (simp add: newPolytopeC_def assms(2))
  have len1: "length (concat (map (\<lambda>c. map (polygonEdgeOf n d c) [0..<n div g]) [0..<g])) = n"
  proof -
    have "length (concat (map (\<lambda>c. map (polygonEdgeOf n d c) [0..<n div g]) [0..<k])) = k * (n div g)" for k
      by (induction k) auto
    then show ?thesis using gn by simp
  qed
  have cells: "R ! 1 ! (c * (n div g) + j)
      = Facets [Num (int ((c + j * d) mod n)), Num (int ((c + (j + 1) * d) mod n))]"
    if "c < g" "j < n div g" for c j
    using nth_concat_uniform[of g "\<lambda>c. map (polygonEdgeOf n d c) [0..<n div g]" "n div g" c j] that
    by (simp add: R polygonEdgeOf_def)
  have closes: "(c + (n div g) * d) mod n = c" if "c < g" for c
  proof -
    have "c < n" using that gn n0 by (meson dvd_imp_le less_le_trans)
    then show ?thesis using polygon_closes[OF assms(2), of c] by simp
  qed
  have inj: "inj_on (\<lambda>j. (c + j * d) mod n) {0..<n div g}" for c
  proof (rule inj_onI)
    fix x y assume xy: "x \<in> {0..<n div g}" "y \<in> {0..<n div g}"
      and e: "(c + x * d) mod n = (c + y * d) mod n"
    show "x = y"
    proof (cases "x \<le> y")
      case True
      then show ?thesis using polygon_vertices_distinct[OF assms(2) n0 True _ e] xy by simp
    next
      case False
      then have "y \<le> x" by simp
      then show ?thesis using polygon_vertices_distinct[OF assms(2) n0 _ _ e[symmetric]] xy by simp
    qed
  qed
  have lens: "length R = 3 \<and> length (R ! 0) = n \<and> length (R ! 1) = n \<and> length (R ! 2) = g"
    using len1 by (simp add: R polygonVertices_def)
  have comp: "R ! 2 ! c = Facets (map (\<lambda>j. Num (int (c * (n div g) + j))) [0..<n div g])"
    if "c < g" for c
    using that by (simp add: R)
  show ?thesis
    using lens comp cells closes inj polygon_vertex_class[OF assms(2)] by blast
qed


text \<open>The instance \<open>regularPolygon(6, 2)\<close>: two triangles.\<close>

lemma polygon_6_2:
  "fold (\<lambda>i. polygonComponent 6 2 (6 div gcd 6 2)) [0..<gcd 6 2]
     \<lparr> edges = [], comps = [], counter = 0, px = 0, py = 2 \<rparr>
   = \<lparr> edges = [Facets [Num 0, Num 2], Facets [Num 2, Num 4], Facets [Num 4, Num 0],
          Facets [Num 1, Num 3], Facets [Num 3, Num 5], Facets [Num 5, Num 1]],
       comps = [Facets [Num 0, Num 1, Num 2], Facets [Num 3, Num 4, Num 5]],
       counter = 6, px = 2, py = 4 \<rparr>"
  by code_simp

theorem regularPolygon_compound_witness:
  "(2::nat) < 6 \<and> gcd (6::nat) 2 = 2
   \<and> map length (elementList (regularPolygon 6 (Some 2) None)) = [6, 6, 2]
   \<and> elementList (regularPolygon 6 (Some 2) None) ! 2
       = [Facets [Num 0, Num 1, Num 2], Facets [Num 3, Num 4, Num 5]]
   \<and> elementList (regularPolygon 6 (Some 2) None) ! 1
       = [Facets [Num 0, Num 2], Facets [Num 2, Num 4], Facets [Num 4, Num 0],
          Facets [Num 1, Num 3], Facets [Num 3, Num 5], Facets [Num 5, Num 1]]"
proof -
  have g: "(2::nat) = gcd 6 2" by simp
  have e: "elementList (regularPolygon 6 (Some 2) None) =
     [polygonVertices 6 2 1,
      [Facets [Num 0, Num 2], Facets [Num 2, Num 4], Facets [Num 4, Num 0],
          Facets [Num 1, Num 3], Facets [Num 3, Num 5], Facets [Num 5, Num 1]],
      [Facets [Num 0, Num 1, Num 2], Facets [Num 3, Num 4, Num 5]]]"
    unfolding regularPolygon_def Let_def option.case polygon_6_2 newPolytopeC_def
    by simp
  note t = regularPolygon_compound[of 2 6 2 "elementList (regularPolygon 6 (Some 2) None)" None, OF _ g refl]
  show ?thesis
    using t unfolding e by (simp add: length_polygonVertices)
qed

lemma gcd_4_6: "gcd (4::nat) 6 = 2"
  by code_simp

lemma polygon_4_6:
  "edges (fold (\<lambda>i. polygonComponent 4 6 (4 div gcd 4 6)) [0..<gcd 4 6]
     \<lparr> edges = [], comps = [], counter = 0, px = 0, py = 6 \<rparr>)
   = [Facets [Num 0, Num 6], Facets [Num 6, Num 8], Facets [Num 9, Num 11],
      Facets [Num 11, Num 13]]"
  by code_simp

text \<open>
  Counterexample to claim C7 as stated for every pair \<open>(n, d)\<close>: for \<open>n = 4\<close> and
  \<open>d = 6\<close> the greatest common divisor is 2, but the edges name the vertices 6, 8, 9,
  11 and 13 of a polygon that has four, and no edge closes a cycle.
\<close>

theorem regularPolygon_step_beyond_n:
  "gcd (4::nat) 6 = 2
   \<and> length (elementList (regularPolygon 4 (Some 6) None) ! 0) = 4
   \<and> elementList (regularPolygon 4 (Some 6) None) ! 1 =
       [Facets [Num 0, Num 6], Facets [Num 6, Num 8], Facets [Num 9, Num 11],
        Facets [Num 11, Num 13]]"
  unfolding regularPolygon_def Let_def option.case polygon_4_6 newPolytopeC_def
  by (simp add: length_polygonVertices gcd_4_6)

subsection \<open>The square as a prism\<close>

text \<open>
  Claim C6. The prism product of two dyads and the hypercube of dimension 2 both have
  4 vertices, 4 edges and 1 face, and the identity relabelling of every rank carries the
  facet set of each cell of the prism onto the facet set of the same cell of the
  hypercube.
\<close>

theorem prism_dyad_dyad_is_square:
  "(case (prism [dyad None, dyad None], hypercube 2) of
      (Inr A, Inr B) \<Rightarrow>
        map length (elementList A) = [4, 4, 1] \<and> map length (elementList B) = [4, 4, 1]
        \<and> combinatoriallyEqualBy [[0, 1, 2, 3], [0, 1, 2, 3], [0]] (elementList A) (elementList B)
    | _ \<Rightarrow> False)"
  by code_simp

subsection \<open>The connectivity detector\<close>

text \<open>
  For two arrays of numbers without repetition, not both empty, the common-element test
  is true exactly when the two index sets meet.
\<close>

lemma probe_None_iff:
  "probe xs vals = None \<longleftrightarrow> (\<not> distinct xs \<or> set xs \<inter> vals \<noteq> {})"
  by (induction xs arbitrary: vals) auto

lemma probe_Some:
  "probe xs vals = Some v \<Longrightarrow> v = vals \<union> set xs"
  by (induction xs arbitrary: vals) (auto split: if_splits)

lemma Undefined_not_number: "list_all isNumber a \<Longrightarrow> Undefined \<notin> set a"
  by (induction a) auto

lemma checkCommonElements_iff:
  assumes "list_all isNumber a" "list_all isNumber b" "distinct a" "distinct b"
    and "a \<noteq> [] \<or> b \<noteq> []"
  shows "checkCommonElements a b \<longleftrightarrow> set a \<inter> set b \<noteq> {}"
proof -
  have ua: "Undefined \<notin> set a" and ub: "Undefined \<notin> set b"
    using assms by (auto dest: Undefined_not_number)
  define vals0 where "vals0 = {nthJs a 0}"
  have pa: "probe (tl a) vals0 = Some (vals0 \<union> set (tl a))"
  proof (cases "probe (tl a) vals0")
    case None
    then have "\<not> distinct (tl a) \<or> set (tl a) \<inter> vals0 \<noteq> {}" by (simp add: probe_None_iff)
    then show ?thesis
      using assms(3) by (cases a) (auto simp: vals0_def nthJs_def distinct_tl)
  next
    case (Some v)
    then show ?thesis using probe_Some by blast
  qed
  define vals where "vals = vals0 \<union> set (tl a)"
  have vals: "vals = (if a = [] then {Undefined} else set a)"
    by (cases a) (auto simp: vals_def vals0_def nthJs_def)
  have db: "distinct (butlast b)" using assms(4) by (simp add: distinct_butlast)
  show ?thesis
  proof (cases "probe (butlast b) vals")
    case None
    then have "set (butlast b) \<inter> vals \<noteq> {}"
      using db by (simp add: probe_None_iff)
    moreover have "set (butlast b) \<subseteq> set b" by (auto dest: in_set_butlastD)
    ultimately have "set a \<inter> set b \<noteq> {}"
      using ub by (auto simp: vals split: if_splits)
    then show ?thesis
      using None pa by (simp add: checkCommonElements_def vals0_def vals_def)
  next
    case (Some v)
    then have v: "v = vals \<union> set (butlast b)" using probe_Some by blast
    from Some have nb: "set (butlast b) \<inter> vals = {}"
      using db by (metis option.distinct(1) probe_None_iff)
    have res: "checkCommonElements a b \<longleftrightarrow> nthJs b (length b - 1) \<in> v"
      using Some pa by (simp add: checkCommonElements_def vals0_def vals_def)
    show ?thesis
    proof (cases "b = []")
      case True
      then show ?thesis using res v ua assms(5) by (auto simp: nthJs_def vals)
    next
      case False
      then have lb: "nthJs b (length b - 1) = last b"
        by (simp add: nthJs_def last_conv_nth)
      have b: "b = butlast b @ [last b]" using False by simp
      have "distinct (butlast b @ [last b])"
        using assms(4) b by metis
      then have nl: "last b \<notin> set (butlast b)" by simp
      have "set b = set (butlast b @ [last b])"
        using b by metis
      then have sb: "set b = insert (last b) (set (butlast b))" by simp
      have lnum: "last b \<noteq> Undefined" using ub False by (metis last_in_set)
      show ?thesis
        using res v lb nl sb nb lnum by (auto simp: vals split: if_splits)
    qed
  qed
qed

text \<open>
  Claim C9 at two empty facets. The first array has no entry, so the dictionary is
  marked at the key \<open>undefined\<close>; the second array has no entry either, so the final
  probe reads \<open>undefined\<close> again and finds the mark: the test answers \<open>true\<close>
  although the two index sets are empty and cannot meet.
\<close>

theorem checkCommonElements_empty_arrays:
  "checkCommonElements [] [] = True \<and> set ([] :: jsval list) \<inter> set [] = {}"
  by (simp add: checkCommonElements_def nthJs_def)

text \<open>
  The six faces of the cube built by \<open>hypercube 3\<close>, given by their edges, form one
  component that covers all six.
\<close>

lemma cube_faces_one_component:
  "(case hypercube 3 of
      Inr P \<Rightarrow> map length (elementList P) = [8, 12, 6, 1]
               \<and> getComponents (map facetsOf (elementList P ! 2)) = [[0, 2, 3, 4, 5, 1]]
    | Inl e \<Rightarrow> False)"
  by code_simp

subsection \<open>The prism product and its index bookkeeping\<close>

lemma memoLe_refl: "memoLe memo memo"
  by (simp add: memoLe_def)

lemma memoLe_trans: "memoLe a b \<Longrightarrow> memoLe b c \<Longrightarrow> memoLe a c"
  by (simp add: memoLe_def)

lemma int_top: "n < len \<Longrightarrow> (int n = int len - 1) = (n = len - 1)"
  by linarith

lemma prismCount_top: "n = length (elementList Q) - 1 \<Longrightarrow> prismCount P Q m n = 0"
  by (cases m) auto

lemma memoOK_update:
  assumes "memoOK P Q memo" "v = Num (int (prismCount P Q m n))"
  shows "memoOK P Q (memo(m \<mapsto> (rowOf memo m)(n := v)))"
  using assms unfolding memoOK_def rowOf_def
  by (auto split: option.splits)

lemma isSet_update:
  assumes "v \<noteq> Undefined"
  shows "isSet (memo(m \<mapsto> (rowOf memo m)(n := v))) m n"
    and "memoLe memo (memo(m \<mapsto> (rowOf memo m)(n := v)))"
  using assms unfolding isSet_def memoLe_def rowOf_def
  by (auto split: option.splits)

lemma getIndexOfPrismProduct_ok:
  assumes ok: "memoOK P Q memo"
    and n: "n < length (elementList Q)"
    and pre: "m = 0 \<or> n = length (elementList Q) - 1
              \<or> (isSet memo (m - 1) (n + 1) \<and> m - 1 < length (elementList P))"
  shows "\<exists>memo'. getIndexOfPrismProduct m i n j P Q memo = Inr (prismIndex P Q m i n j, memo')
           \<and> memoOK P Q memo' \<and> isSet memo' m n \<and> memoLe memo memo'"
proof -
  let ?offset = "js_add (js_mul i (Num (int (length (elementList Q ! n))))) j"
  have rq: "rankOf Q n = Some (elementList Q ! n)" using n by (simp add: rankOf_def)
  show ?thesis
  proof (cases "memo m \<noteq> None \<and> truthy (rowOf memo m n)")
    case True
    then obtain row where row: "memo m = Some row" by auto
    then have rn: "row n \<noteq> Undefined" using True by (auto simp: rowOf_def)
    then have v: "row n = Num (int (prismCount P Q m n))"
      using ok row unfolding memoOK_def by blast
    have "getIndexOfPrismProduct m i n j P Q memo = Inr (prismIndex P Q m i n j, memo)"
      using True row v
      by (simp add: getIndexOfPrismProduct_def rq Let_def rowOf_def prismIndex_def)
    moreover have "isSet memo m n" using row rn by (auto simp: isSet_def)
    ultimately show ?thesis using ok memoLe_refl by blast
  next
    case False
    show ?thesis
    proof (cases "m = 0 \<or> n = length (elementList Q) - 1")
      case True
      then have c0: "prismCount P Q m n = 0"
        by (auto simp: prismCount_top)
      have base: "m = 0 \<or> int n = int (length (elementList Q)) - 1"
        using True int_top[OF n] by blast
      have "getIndexOfPrismProduct m i n j P Q memo
            = Inr (prismIndex P Q m i n j, memo(m \<mapsto> (rowOf memo m)(n := Num 0)))"
        using False base
        by (auto simp add: getIndexOfPrismProduct_def rq Let_def prismIndex_def c0)
      moreover have "memoOK P Q (memo(m \<mapsto> (rowOf memo m)(n := Num 0)))"
        using ok c0 by (intro memoOK_update) auto
      ultimately show ?thesis
        using isSet_update[of "Num 0" memo m n] by blast
    next
      case nb: False
      then have m0: "m \<noteq> 0" and nt: "n \<noteq> length (elementList Q) - 1" by auto
      then have n1: "n + 1 < length (elementList Q)" using n by simp
      have notbase: "\<not> (m = 0 \<or> int n = int (length (elementList Q)) - 1)"
        using nb int_top[OF n] by blast
      from pre nb have s: "isSet memo (m - 1) (n + 1)" and pm: "m - 1 < length (elementList P)"
        by auto
      then obtain prev where prev: "memo (m - 1) = Some prev" "prev (n + 1) \<noteq> Undefined"
        by (auto simp: isSet_def)
      then have pv: "prev (n + 1) = Num (int (prismCount P Q (m - 1) (n + 1)))"
        using ok unfolding memoOK_def by blast
      obtain m' where m': "m = Suc m'" using m0 by (cases m) auto
      let ?v = "Num (int (prismCount P Q m n))"
      have cnt: "js_add (prev (n + 1))
                   (Num (int (length (elementList P ! (m - 1))) * int (length (elementList Q ! (n + 1)))))
                 = ?v"
        using pv nt by (simp add: m')
      have "getIndexOfPrismProduct m i n j P Q memo
            = Inr (prismIndex P Q m i n j, memo(m \<mapsto> (rowOf memo m)(n := ?v)))"
        using False notbase prev(1) pm n1 cnt
        by (auto simp add: getIndexOfPrismProduct_def rq Let_def prismIndex_def rankOf_def)
      moreover have "memoOK P Q (memo(m \<mapsto> (rowOf memo m)(n := ?v)))"
        using ok by (intro memoOK_update) auto
      ultimately show ?thesis
        using isSet_update[of ?v memo m n] by blast
    qed
  qed
qed

lemma pushTo_push1: "r < length els \<Longrightarrow> pushTo r e els = Inr (push1 r e els)"
  by (simp add: pushTo_def push1_def)

lemma length_push1 [simp]: "length (push1 r e els) = length els"
  by (simp add: push1_def)

lemma length_pushBlock [simp]: "length (pushBlock r blk els) = length els"
  by (simp add: pushBlock_def)

lemma fold_push1:
  "r < length els \<Longrightarrow> fold (\<lambda>x. push1 r (c x)) xs els = pushBlock r (map c xs) els"
proof (induction xs arbitrary: els)
  case Nil
  then show ?case by (simp add: pushBlock_def)
next
  case (Cons x xs)
  then show ?case by (simp add: pushBlock_def push1_def)
qed

lemma fold_pushBlock:
  "r < length els \<Longrightarrow> fold (\<lambda>x. pushBlock r (b x)) xs els = pushBlock r (concat (map b xs)) els"
proof (induction xs arbitrary: els)
  case Nil
  then show ?case by (simp add: pushBlock_def)
next
  case (Cons x xs)
  then show ?case by (simp add: pushBlock_def)
qed

lemma foldE_inv:
  assumes step: "\<And>ys x zs els memo. xs = ys @ x # zs \<Longrightarrow> I ys els memo \<Longrightarrow>
             \<exists>memo'. f x (els, memo) = Inr (g x els, memo') \<and> I (ys @ [x]) (g x els) memo'"
    and init: "I [] els memo"
  shows "\<exists>memo'. foldE f xs (els, memo) = Inr (fold g xs els, memo') \<and> I xs (fold g xs els) memo'"
  using assms
proof (induction xs arbitrary: I els memo)
  case Nil
  then show ?case by simp
next
  case (Cons x xs)
  from Cons.prems(1)[of "[]" x xs els memo] Cons.prems(2)
  obtain memo1 where m1: "f x (els, memo) = Inr (g x els, memo1)" "I [x] (g x els) memo1"
    by auto
  have "\<exists>memo'. foldE f xs (g x els, memo1) = Inr (fold g xs (g x els), memo')
          \<and> I (x # xs) (fold g xs (g x els)) memo'"
  proof (rule Cons.IH[where I = "\<lambda>ys. I (x # ys)"])
    fix ys y zs els' memo'
    assume "xs = ys @ y # zs" "I (x # ys) els' memo'"
    then show "\<exists>memo''. f y (els', memo') = Inr (g y els', memo'') \<and> I (x # ys @ [y]) (g y els') memo''"
      using Cons.prems(1)[of "x # ys" y zs els' memo'] by simp
  next
    show "I [x] (g x els) memo1" by (rule m1(2))
  qed
  then show ?case using m1(1) by simp
qed

lemma pushIndices_ok:
  assumes step: "\<And>f memo. I memo \<Longrightarrow>
             \<exists>memo'. get f memo = Inr (val f, memo') \<and> I memo' \<and> memoLe memo memo'
                     \<and> isSet memo' a b"
    and init: "I memo"
  shows "\<exists>memo'. pushIndices get fs (acc, memo) = Inr (acc @ map val fs, memo') \<and> I memo'
           \<and> memoLe memo memo' \<and> (fs \<noteq> [] \<longrightarrow> isSet memo' a b)"
  using init
proof (induction fs arbitrary: acc memo)
  case Nil
  then show ?case by (simp add: memoLe_refl)
next
  case (Cons f fs)
  from step[OF Cons.prems, of f] obtain memo1
    where m1: "get f memo = Inr (val f, memo1)" "I memo1" "memoLe memo memo1" "isSet memo1 a b"
    by auto
  from Cons.IH[OF m1(2), of "acc @ [val f]"] obtain memo'
    where m': "pushIndices get fs (acc @ [val f], memo1) = Inr ((acc @ [val f]) @ map val fs, memo')"
      "I memo'" "memoLe memo1 memo'"
    by auto
  have "isSet memo' a b" using m1(4) m'(3) by (simp add: memoLe_def)
  moreover have "memoLe memo memo'" using m1(3) m'(3) by (rule memoLe_trans)
  ultimately show ?case
    using m1(1) m'(1,2) by simp
qed

lemma prismCell_ok:
  assumes ok: "memoOK P Q memo"
    and m: "m < length (elementList P)" and n: "n < length (elementList Q)"
    and pre1: "2 \<le> m \<longrightarrow> n \<noteq> length (elementList Q) - 1 \<longrightarrow> isSet memo (m - 2) (n + 1)"
    and pre2: "1 \<le> m \<longrightarrow> 1 \<le> n \<longrightarrow>
               facetsOf (elementList P ! m ! i) \<noteq> [] \<or> isSet memo (m - 1) n"
  shows "\<exists>memo'. prismCell m i n j P Q (elementList P ! m ! i) (elementList Q ! n ! j) memo
                   = Inr (prismCellSpec P Q m n i j, memo')
           \<and> memoOK P Q memo' \<and> memoLe memo memo'
           \<and> (1 \<le> m \<longrightarrow> facetsOf (elementList P ! m ! i) \<noteq> [] \<longrightarrow> isSet memo' (m - 1) n)"
proof -
  let ?fsP = "facetsOf (elementList P ! m ! i)" and ?fsQ = "facetsOf (elementList Q ! n ! j)"
  let ?l1 = "if m \<noteq> 0 then map (\<lambda>f. prismIndex P Q (m - 1) f n (Num (int j))) ?fsP else []"
  let ?l2 = "if n \<noteq> 0 then map (\<lambda>f. prismIndex P Q m (Num (int i)) (n - 1) f) ?fsQ else []"
  let ?L1 = "if m \<noteq> 0
             then pushIndices (\<lambda>f. getIndexOfPrismProduct (m - 1) f n (Num (int j)) P Q) ?fsP ([], memo)
             else Inr ([], memo)"
  have first: "\<exists>memo1. ?L1 = Inr (?l1, memo1) \<and> memoOK P Q memo1 \<and> memoLe memo memo1
                 \<and> (1 \<le> m \<longrightarrow> ?fsP \<noteq> [] \<longrightarrow> isSet memo1 (m - 1) n)"
  proof (cases "m = 0")
    case True
    then show ?thesis using ok by (simp add: memoLe_refl)
  next
    case False
    define I where "I = (\<lambda>memo'. memoOK P Q memo' \<and> memoLe memo memo')"
    have "\<exists>memo'. pushIndices (\<lambda>f. getIndexOfPrismProduct (m - 1) f n (Num (int j)) P Q) ?fsP ([], memo)
                 = Inr ([] @ map (\<lambda>f. prismIndex P Q (m - 1) f n (Num (int j))) ?fsP, memo')
             \<and> I memo' \<and> memoLe memo memo' \<and> (?fsP \<noteq> [] \<longrightarrow> isSet memo' (m - 1) n)"
    proof (rule pushIndices_ok)
      show "I memo" using ok by (simp add: I_def memoLe_refl)
    next
      fix f memo0 assume I0: "I memo0"
      have pre: "m - 1 = 0 \<or> n = length (elementList Q) - 1
              \<or> (isSet memo0 (m - 1 - 1) (n + 1) \<and> m - 1 - 1 < length (elementList P))"
      proof (cases "2 \<le> m \<and> n \<noteq> length (elementList Q) - 1")
        case True
        then have "isSet memo (m - 2) (n + 1)" using pre1 by simp
        then have "isSet memo0 (m - 2) (n + 1)" using I0 by (simp add: I_def memoLe_def)
        moreover have "m - 1 - 1 = m - 2" by simp
        moreover have "m - 2 < length (elementList P)" using m by simp
        ultimately show ?thesis by metis
      next
        case False
        then show ?thesis by auto
      qed
      from getIndexOfPrismProduct_ok[where memo = memo0 and i = f and j = "Num (int j)", OF _ n pre] I0
      obtain memo' where g: "getIndexOfPrismProduct (m - 1) f n (Num (int j)) P Q memo0
             = Inr (prismIndex P Q (m - 1) f n (Num (int j)), memo')"
          "memoOK P Q memo'" "isSet memo' (m - 1) n" "memoLe memo0 memo'"
        by (auto simp: I_def)
      have "memoLe memo memo'" using I0 g(4) by (auto simp: I_def intro: memoLe_trans)
      then show "\<exists>memo'. getIndexOfPrismProduct (m - 1) f n (Num (int j)) P Q memo0
             = Inr (prismIndex P Q (m - 1) f n (Num (int j)), memo') \<and> I memo'
             \<and> memoLe memo0 memo' \<and> isSet memo' (m - 1) n"
        using g by (auto simp: I_def)
    qed
    then show ?thesis using False by (auto simp: I_def)
  qed
  then obtain memo1 where L1: "?L1 = Inr (?l1, memo1)" and ok1: "memoOK P Q memo1"
    and le1: "memoLe memo memo1"
    and set1: "1 \<le> m \<longrightarrow> ?fsP \<noteq> [] \<longrightarrow> isSet memo1 (m - 1) n"
    by blast
  let ?L2 = "if n \<noteq> 0
             then pushIndices (\<lambda>f. getIndexOfPrismProduct m (Num (int i)) (n - 1) f P Q) ?fsQ (?l1, memo1)
             else Inr (?l1, memo1)"
  have second: "\<exists>memo2. ?L2 = Inr (?l1 @ ?l2, memo2) \<and> memoOK P Q memo2 \<and> memoLe memo1 memo2"
  proof (cases "n = 0")
    case True
    then show ?thesis using ok1 by (simp add: memoLe_refl)
  next
    case False
    define I where "I = (\<lambda>memo'. memoOK P Q memo' \<and> memoLe memo1 memo')"
    have n1: "n - 1 < length (elementList Q)" using n by simp
    have s1: "m = 0 \<or> isSet memo1 (m - 1) n"
    proof (cases "m = 0")
      case True
      then show ?thesis by simp
    next
      case m0: False
      then have "?fsP \<noteq> [] \<or> isSet memo (m - 1) n" using pre2 False by simp
      then show ?thesis using set1 le1 m0 by (auto simp: memoLe_def)
    qed
    have "\<exists>memo'. pushIndices (\<lambda>f. getIndexOfPrismProduct m (Num (int i)) (n - 1) f P Q) ?fsQ (?l1, memo1)
                 = Inr (?l1 @ map (\<lambda>f. prismIndex P Q m (Num (int i)) (n - 1) f) ?fsQ, memo')
             \<and> I memo' \<and> memoLe memo1 memo' \<and> (?fsQ \<noteq> [] \<longrightarrow> isSet memo' m (n - 1))"
    proof (rule pushIndices_ok)
      show "I memo1" using ok1 by (simp add: I_def memoLe_refl)
    next
      fix f memo0 assume I0: "I memo0"
      have pre: "m = 0 \<or> n - 1 = length (elementList Q) - 1
              \<or> (isSet memo0 (m - 1) (n - 1 + 1) \<and> m - 1 < length (elementList P))"
        using s1 I0 m False by (auto simp: I_def memoLe_def)
      from getIndexOfPrismProduct_ok[where memo = memo0 and i = "Num (int i)" and j = f, OF _ n1 pre] I0
      obtain memo' where g: "getIndexOfPrismProduct m (Num (int i)) (n - 1) f P Q memo0
             = Inr (prismIndex P Q m (Num (int i)) (n - 1) f, memo')"
          "memoOK P Q memo'" "isSet memo' m (n - 1)" "memoLe memo0 memo'"
        by (auto simp: I_def)
      have "memoLe memo1 memo'" using I0 g(4) by (auto simp: I_def intro: memoLe_trans)
      then show "\<exists>memo'. getIndexOfPrismProduct m (Num (int i)) (n - 1) f P Q memo0
             = Inr (prismIndex P Q m (Num (int i)) (n - 1) f, memo') \<and> I memo'
             \<and> memoLe memo0 memo' \<and> isSet memo' m (n - 1)"
        using g by (auto simp: I_def)
    qed
    then show ?thesis using False by (auto simp: I_def)
  qed
  then obtain memo2 where L2: "?L2 = Inr (?l1 @ ?l2, memo2)" and ok2: "memoOK P Q memo2"
    and le2: "memoLe memo1 memo2"
    by blast
  have "prismCell m i n j P Q (elementList P ! m ! i) (elementList Q ! n ! j) memo
        = Inr (prismCellSpec P Q m n i j, memo2)"
    unfolding prismCell_def L1 sum.case L2 prismCellSpec_def by (rule refl)
  moreover have "memoLe memo memo2" using le1 le2 by (rule memoLe_trans)
  moreover have "1 \<le> m \<longrightarrow> ?fsP \<noteq> [] \<longrightarrow> isSet memo2 (m - 1) n"
    using set1 le2 by (auto simp: memoLe_def)
  ultimately show ?thesis using ok2 by blast
qed

lemma prismStep_ok:
  assumes ok: "memoOK P Q memo"
    and m: "m < length (elementList P)" and n: "n < length (elementList Q)"
    and r: "m + n < length els"
    and pre1: "2 \<le> m \<longrightarrow> n \<noteq> length (elementList Q) - 1 \<longrightarrow> isSet memo (m - 2) (n + 1)"
    and fac: "1 \<le> m \<longrightarrow> facetsOf (elementList P ! m ! i) \<noteq> []"
  shows "\<exists>memo'. prismStep P Q m n (elementList P ! m) (elementList Q ! n) i j (els, memo)
                   = Inr (push1 (m + n) (Facets (prismCellSpec P Q m n i j)) els, memo')
           \<and> memoOK P Q memo' \<and> memoLe memo memo' \<and> (1 \<le> m \<longrightarrow> isSet memo' (m - 1) n)"
proof -
  have pre2: "1 \<le> m \<longrightarrow> 1 \<le> n \<longrightarrow>
               facetsOf (elementList P ! m ! i) \<noteq> [] \<or> isSet memo (m - 1) n"
    using fac by simp
  from prismCell_ok[where i = i and j = j, OF ok m n pre1 pre2] obtain memo'
    where c: "prismCell m i n j P Q (elementList P ! m ! i) (elementList Q ! n ! j) memo
                = Inr (prismCellSpec P Q m n i j, memo')"
      "memoOK P Q memo'" "memoLe memo memo'"
      "1 \<le> m \<longrightarrow> facetsOf (elementList P ! m ! i) \<noteq> [] \<longrightarrow> isSet memo' (m - 1) n"
    by blast
  have "prismStep P Q m n (elementList P ! m) (elementList Q ! n) i j (els, memo)
        = Inr (push1 (m + n) (Facets (prismCellSpec P Q m n i j)) els, memo')"
    by (simp add: prismStep_def c(1) pushTo_push1[OF r])
  then show ?thesis using c fac by blast
qed

lemma prismLoop_j:
  assumes ok: "memoOK P Q memo"
    and m: "m < length (elementList P)" and n: "n < length (elementList Q)"
    and r: "m + n < length els"
    and pre1: "2 \<le> m \<longrightarrow> n \<noteq> length (elementList Q) - 1 \<longrightarrow> isSet memo (m - 2) (n + 1)"
    and fac: "1 \<le> m \<longrightarrow> facetsOf (elementList P ! m ! i) \<noteq> []"
  shows "\<exists>memo'. foldE (prismStep P Q m n (elementList P ! m) (elementList Q ! n) i) js (els, memo)
                   = Inr (pushBlock (m + n) (map (\<lambda>j. Facets (prismCellSpec P Q m n i j)) js) els, memo')
           \<and> memoOK P Q memo' \<and> memoLe memo memo'
           \<and> (1 \<le> m \<longrightarrow> js \<noteq> [] \<longrightarrow> isSet memo' (m - 1) n)"
proof -
  define I where "I = (\<lambda>(ys :: nat list) (els' :: ElementList) memo'.
      memoOK P Q memo' \<and> memoLe memo memo' \<and> length els' = length els
      \<and> (1 \<le> m \<longrightarrow> ys \<noteq> [] \<longrightarrow> isSet memo' (m - 1) n))"
  let ?g = "\<lambda>j. push1 (m + n) (Facets (prismCellSpec P Q m n i j))"
  have "\<exists>memo'. foldE (prismStep P Q m n (elementList P ! m) (elementList Q ! n) i) js (els, memo)
                   = Inr (fold ?g js els, memo') \<and> I js (fold ?g js els) memo'"
  proof (rule foldE_inv)
    show "I [] els memo" using ok by (simp add: I_def memoLe_refl)
  next
    fix ys x zs els0 memo0
    assume "js = ys @ x # zs" and I0: "I ys els0 memo0"
    then have ok0: "memoOK P Q memo0" and le0: "memoLe memo memo0"
      and len0: "length els0 = length els"
      by (auto simp: I_def)
    have r0: "m + n < length els0" using r len0 by simp
    have pre0: "2 \<le> m \<longrightarrow> n \<noteq> length (elementList Q) - 1 \<longrightarrow> isSet memo0 (m - 2) (n + 1)"
      using pre1 le0 by (simp add: memoLe_def)
    from prismStep_ok[where j = x, OF ok0 m n r0 pre0 fac] obtain memo'
      where st: "prismStep P Q m n (elementList P ! m) (elementList Q ! n) i x (els0, memo0)
                   = Inr (?g x els0, memo')"
        "memoOK P Q memo'" "memoLe memo0 memo'" "1 \<le> m \<longrightarrow> isSet memo' (m - 1) n"
      by blast
    have "memoLe memo memo'" using le0 st(3) by (rule memoLe_trans)
    then show "\<exists>memo'. prismStep P Q m n (elementList P ! m) (elementList Q ! n) i x (els0, memo0)
                   = Inr (?g x els0, memo') \<and> I (ys @ [x]) (?g x els0) memo'"
      using st len0 by (auto simp: I_def)
  qed
  then show ?thesis
    using fold_push1[OF r, of "\<lambda>j. Facets (prismCellSpec P Q m n i j)" js]
    by (auto simp: I_def)
qed

lemma prismPair_ok:
  assumes ok: "memoOK P Q memo"
    and m: "m < length (elementList P)" and n: "n < length (elementList Q)"
    and r: "m + n < length els"
    and pre1: "2 \<le> m \<longrightarrow> n \<noteq> length (elementList Q) - 1 \<longrightarrow> isSet memo (m - 2) (n + 1)"
    and fac: "1 \<le> m \<longrightarrow> (\<forall>i < length (elementList P ! m).
                facetsOf (elementList P ! m ! i) \<noteq> [])"
  shows "\<exists>memo'. prismPair P Q m n (els, memo)
                   = Inr (pushBlock (m + n) (prismBlock P Q m n) els, memo')
           \<and> memoOK P Q memo' \<and> memoLe memo memo'
           \<and> (1 \<le> m \<longrightarrow> elementList P ! m \<noteq> [] \<longrightarrow> elementList Q ! n \<noteq> [] \<longrightarrow>
                isSet memo' (m - 1) n)"
proof -
  let ?Pm = "elementList P ! m" and ?Qn = "elementList Q ! n"
  define I where "I = (\<lambda>(ys :: nat list) (els' :: ElementList) memo'.
      memoOK P Q memo' \<and> memoLe memo memo' \<and> length els' = length els
      \<and> (1 \<le> m \<longrightarrow> ys \<noteq> [] \<longrightarrow> ?Qn \<noteq> [] \<longrightarrow> isSet memo' (m - 1) n))"
  let ?f = "\<lambda>i s1. case rankOf Q n of None \<Rightarrow> Inl TypeError
                   | Some Qn \<Rightarrow> foldE (prismStep P Q m n ?Pm Qn i) [0..<length Qn] s1"
  let ?g = "\<lambda>i. pushBlock (m + n) (map (\<lambda>j. Facets (prismCellSpec P Q m n i j)) [0..<length ?Qn])"
  have "\<exists>memo'. foldE ?f [0..<length ?Pm] (els, memo)
                   = Inr (fold ?g [0..<length ?Pm] els, memo')
                 \<and> I [0..<length ?Pm] (fold ?g [0..<length ?Pm] els) memo'"
  proof (rule foldE_inv)
    show "I [] els memo" using ok by (simp add: I_def memoLe_refl)
  next
    fix ys x zs els0 memo0
    assume split: "[0..<length ?Pm] = ys @ x # zs" and I0: "I ys els0 memo0"
    then have ok0: "memoOK P Q memo0" and le0: "memoLe memo memo0"
      and len0: "length els0 = length els"
      by (auto simp: I_def)
    have "x \<in> set [0..<length ?Pm]" using split by simp
    then have x: "x < length ?Pm" by simp
    have r0: "m + n < length els0" using r len0 by simp
    have pre0: "2 \<le> m \<longrightarrow> n \<noteq> length (elementList Q) - 1 \<longrightarrow> isSet memo0 (m - 2) (n + 1)"
      using pre1 le0 by (simp add: memoLe_def)
    have fx: "1 \<le> m \<longrightarrow> facetsOf (?Pm ! x) \<noteq> []" using fac x by simp
    from prismLoop_j[where js = "[0..<length ?Qn]", OF ok0 m n r0 pre0 fx] obtain memo'
      where st: "foldE (prismStep P Q m n ?Pm ?Qn x) [0..<length ?Qn] (els0, memo0)
                   = Inr (?g x els0, memo')"
        "memoOK P Q memo'" "memoLe memo0 memo'"
        "1 \<le> m \<longrightarrow> [0..<length ?Qn] \<noteq> [] \<longrightarrow> isSet memo' (m - 1) n"
      by blast
    have "memoLe memo memo'" using le0 st(3) by (rule memoLe_trans)
    moreover have "?f x (els0, memo0) = Inr (?g x els0, memo')"
      using st(1) n by (simp add: rankOf_def)
    ultimately show "\<exists>memo'. ?f x (els0, memo0) = Inr (?g x els0, memo') \<and> I (ys @ [x]) (?g x els0) memo'"
      using st(2,4) len0 by (auto simp: I_def)
  qed
  then obtain memo' where res: "foldE ?f [0..<length ?Pm] (els, memo)
                   = Inr (fold ?g [0..<length ?Pm] els, memo')"
     and I': "I [0..<length ?Pm] (fold ?g [0..<length ?Pm] els) memo'"
    by blast
  have "fold ?g [0..<length ?Pm] els = pushBlock (m + n) (prismBlock P Q m n) els"
    unfolding prismBlock_def by (rule fold_pushBlock[OF r])
  moreover have "prismPair P Q m n (els, memo) = foldE ?f [0..<length ?Pm] (els, memo)"
    using m by (simp add: prismPair_def rankOf_def)
  ultimately show ?thesis
    using res I' by (auto simp: I_def)
qed

lemma upt_split_mem:
  assumes "[a..<b] = ys @ x # zs" "a \<le> k" "k < x"
  shows "k \<in> set ys"
proof -
  have "x \<in> set [a..<b]" using assms(1) by simp
  then have "x < b" by simp
  then have "a \<le> k \<and> k < b" using assms(2,3) by simp
  then have "k \<in> set [a..<b]" by simp
  then have "k \<in> set (ys @ x # zs)" by (simp only: assms(1))
  then have "k \<in> set ys \<or> k = x \<or> k \<in> set zs" by auto
  moreover have "k \<noteq> x" using assms by simp
  moreover have "k \<notin> set zs"
  proof
    assume kz: "k \<in> set zs"
    have "sorted (ys @ x # zs)" using assms(1) sorted_upt by metis
    then have "x \<le> k" using kz by (simp add: sorted_append)
    then show False using assms by simp
  qed
  ultimately show ?thesis by blast
qed

lemma upt_split_bound:
  assumes "[a..<b] = ys @ x # zs"
  shows "a \<le> x \<and> x < b"
proof -
  have "x \<in> set [a..<b]" using assms by simp
  then show ?thesis by simp
qed

lemma prismRow_ok:
  assumes ok: "memoOK P Q memo"
    and m: "m < length (elementList P)"
    and len: "m + length (elementList Q) \<le> length els"
    and pre: "2 \<le> m \<longrightarrow> (\<forall>b < length (elementList Q). isSet memo (m - 2) b)"
    and fac: "1 \<le> m \<longrightarrow> (\<forall>i < length (elementList P ! m).
                facetsOf (elementList P ! m ! i) \<noteq> [])"
    and neP: "elementList P ! m \<noteq> []"
    and neQ: "\<forall>n < length (elementList Q). elementList Q ! n \<noteq> []"
  shows "\<exists>memo'. foldE (prismPair P Q m) [n0..<length (elementList Q)] (els, memo)
                   = Inr (fold (\<lambda>n. pushBlock (m + n) (prismBlock P Q m n))
                            [n0..<length (elementList Q)] els, memo')
           \<and> memoOK P Q memo' \<and> memoLe memo memo'
           \<and> (1 \<le> m \<longrightarrow> (\<forall>b < length (elementList Q). n0 \<le> b \<longrightarrow> isSet memo' (m - 1) b))"
proof -
  let ?N = "length (elementList Q)"
  let ?g = "\<lambda>n. pushBlock (m + n) (prismBlock P Q m n)"
  define I where "I = (\<lambda>(ys :: nat list) (els' :: ElementList) memo'.
      memoOK P Q memo' \<and> memoLe memo memo' \<and> length els' = length els
      \<and> (1 \<le> m \<longrightarrow> (\<forall>b \<in> set ys. isSet memo' (m - 1) b)))"
  have "\<exists>memo'. foldE (prismPair P Q m) [n0..<?N] (els, memo) = Inr (fold ?g [n0..<?N] els, memo')
                 \<and> I [n0..<?N] (fold ?g [n0..<?N] els) memo'"
  proof (rule foldE_inv)
    show "I [] els memo" using ok by (simp add: I_def memoLe_refl)
  next
    fix ys x zs els0 memo0
    assume split: "[n0..<?N] = ys @ x # zs" and I0: "I ys els0 memo0"
    then have ok0: "memoOK P Q memo0" and le0: "memoLe memo memo0"
      and len0: "length els0 = length els"
      and set0: "1 \<le> m \<longrightarrow> (\<forall>b \<in> set ys. isSet memo0 (m - 1) b)"
      by (auto simp: I_def)
    have x: "x < ?N" using upt_split_bound[OF split] by simp
    have r0: "m + x < length els0" using len len0 x by simp
    have pre0: "2 \<le> m \<longrightarrow> x \<noteq> ?N - 1 \<longrightarrow> isSet memo0 (m - 2) (x + 1)"
    proof (intro impI)
      assume "2 \<le> m" "x \<noteq> ?N - 1"
      then have "x + 1 < ?N" using x by simp
      then have "isSet memo (m - 2) (x + 1)" using pre \<open>2 \<le> m\<close> by simp
      then show "isSet memo0 (m - 2) (x + 1)" using le0 by (simp add: memoLe_def)
    qed
    from prismPair_ok[where els = els0, OF ok0 m x r0 pre0 fac] obtain memo'
      where st: "prismPair P Q m x (els0, memo0) = Inr (?g x els0, memo')"
        "memoOK P Q memo'" "memoLe memo0 memo'"
        "1 \<le> m \<longrightarrow> elementList P ! m \<noteq> [] \<longrightarrow> elementList Q ! x \<noteq> [] \<longrightarrow> isSet memo' (m - 1) x"
      by blast
    have "memoLe memo memo'" using le0 st(3) by (rule memoLe_trans)
    moreover have "1 \<le> m \<longrightarrow> isSet memo' (m - 1) x" using st(4) neP neQ x by simp
    moreover have "1 \<le> m \<longrightarrow> (\<forall>b \<in> set ys. isSet memo' (m - 1) b)"
      using set0 st(3) by (simp add: memoLe_def)
    ultimately show "\<exists>memo'. prismPair P Q m x (els0, memo0) = Inr (?g x els0, memo')
                        \<and> I (ys @ [x]) (?g x els0) memo'"
      using st(1,2) len0 by (auto simp: I_def)
  qed
  then show ?thesis by (auto simp: I_def)
qed

lemma length_fold_pushBlock [simp]:
  "length (fold (\<lambda>n. pushBlock (r n) (b n)) ns els) = length els"
  by (induction ns arbitrary: els) auto

lemma prismRows_ok:
  assumes len: "length els = length (elementList P) + length (elementList Q) - 1"
    and lq: "1 \<le> length (elementList Q)"
    and fac: "\<forall>m < length (elementList P). 1 \<le> m \<longrightarrow> (\<forall>i < length (elementList P ! m).
                facetsOf (elementList P ! m ! i) \<noteq> [])"
    and neP: "\<forall>m < length (elementList P). elementList P ! m \<noteq> []"
    and neQ: "\<forall>n < length (elementList Q). elementList Q ! n \<noteq> []"
  shows "\<exists>memo'. foldE (\<lambda>m. foldE (prismPair P Q m) [(if m = 0 then 1 else 0)..<length (elementList Q)])
                    [0..<length (elementList P)] (els, emptyMemoizer)
                   = Inr (fold (\<lambda>m. fold (\<lambda>n. pushBlock (m + n) (prismBlock P Q m n))
                                       [(if m = 0 then 1 else 0)..<length (elementList Q)])
                            [0..<length (elementList P)] els, memo')"
proof -
  let ?N = "length (elementList Q)" and ?M = "length (elementList P)"
  let ?f = "\<lambda>m. foldE (prismPair P Q m) [(if m = 0 then 1 else 0)..<?N]"
  let ?g = "\<lambda>m. fold (\<lambda>n. pushBlock (m + n) (prismBlock P Q m n)) [(if m = 0 then 1 else 0)..<?N]"
  define I where "I = (\<lambda>(ys :: nat list) (els' :: ElementList) memo'.
      memoOK P Q memo' \<and> length els' = length els
      \<and> (\<forall>a \<in> set ys. 1 \<le> a \<longrightarrow> (\<forall>b < ?N. isSet memo' (a - 1) b)))"
  have "\<exists>memo'. foldE ?f [0..<?M] (els, emptyMemoizer) = Inr (fold ?g [0..<?M] els, memo')
                 \<and> I [0..<?M] (fold ?g [0..<?M] els) memo'"
  proof (rule foldE_inv)
    show "I [] els emptyMemoizer" by (simp add: I_def memoOK_def emptyMemoizer_def)
  next
    fix ys x zs els0 memo0
    assume split: "[0..<?M] = ys @ x # zs" and I0: "I ys els0 memo0"
    then have ok0: "memoOK P Q memo0" and len0: "length els0 = length els"
      and set0: "\<forall>a \<in> set ys. 1 \<le> a \<longrightarrow> (\<forall>b < ?N. isSet memo0 (a - 1) b)"
      by (auto simp: I_def)
    have x: "x < ?M" using upt_split_bound[OF split] by simp
    have l0: "x + ?N \<le> length els0" using len len0 x by simp
    have pre0: "2 \<le> x \<longrightarrow> (\<forall>b < ?N. isSet memo0 (x - 2) b)"
    proof (intro impI)
      assume x2: "2 \<le> x"
      then have "x - 1 \<in> set ys" using upt_split_mem[OF split, of "x - 1"] by simp
      moreover have "1 \<le> x - 1" using x2 by simp
      ultimately have "\<forall>b < ?N. isSet memo0 (x - 1 - 1) b" using set0 by blast
      moreover have "x - 1 - 1 = x - 2" by simp
      ultimately show "\<forall>b < ?N. isSet memo0 (x - 2) b" by simp
    qed
    have fx: "1 \<le> x \<longrightarrow> (\<forall>i < length (elementList P ! x). facetsOf (elementList P ! x ! i) \<noteq> [])"
      using fac x by simp
    have nx: "elementList P ! x \<noteq> []" using neP x by simp
    from prismRow_ok[where els = els0 and ?n0.0 = "if x = 0 then 1 else 0", OF ok0 x l0 pre0 fx nx neQ]
    obtain memo' where st: "?f x (els0, memo0) = Inr (?g x els0, memo')"
        "memoOK P Q memo'" "memoLe memo0 memo'"
        "1 \<le> x \<longrightarrow> (\<forall>b < ?N. (if x = 0 then 1 else 0) \<le> b \<longrightarrow> isSet memo' (x - 1) b)"
      by blast
    have "\<forall>a \<in> set ys. 1 \<le> a \<longrightarrow> (\<forall>b < ?N. isSet memo' (a - 1) b)"
      using set0 st(3) by (simp add: memoLe_def)
    moreover have "1 \<le> x \<longrightarrow> (\<forall>b < ?N. isSet memo' (x - 1) b)"
      using st(4) by auto
    ultimately show "\<exists>memo'. ?f x (els0, memo0) = Inr (?g x els0, memo') \<and> I (ys @ [x]) (?g x els0) memo'"
      using st(1,2) len0 by (auto simp: I_def)
  qed
  then show ?thesis by blast
qed

lemma prismVertices_inner:
  assumes "isPoint p" "list_all isPoint Q0"
  shows "foldE (\<lambda>q vs1. case Point_product p q of Inl e \<Rightarrow> Inl e | Inr v \<Rightarrow> Inr (vs1 @ [v])) Q0 vs
         = Inr (vs @ map (\<lambda>q. Point (coordsOf p @ coordsOf q)) Q0)"
  using assms(2)
proof (induction Q0 arbitrary: vs)
  case Nil
  then show ?case by simp
next
  case (Cons q Q0)
  obtain a where a: "p = Point a" using assms(1) by (cases p) auto
  obtain b where b: "q = Point b" using Cons.prems by (cases q) auto
  show ?case using Cons by (simp add: a b)
qed

lemma prismVertices_points:
  assumes "list_all isPoint P0" "list_all isPoint Q0"
  shows "prismVertices P0 Q0
         = Inr (concat (map (\<lambda>p. map (\<lambda>q. Point (coordsOf p @ coordsOf q)) Q0) P0))"
proof -
  have "foldE (\<lambda>p vs. foldE (\<lambda>q vs1. case Point_product p q of Inl e \<Rightarrow> Inl e
                                        | Inr v \<Rightarrow> Inr (vs1 @ [v])) Q0 vs) P0 vs
        = Inr (vs @ concat (map (\<lambda>p. map (\<lambda>q. Point (coordsOf p @ coordsOf q)) Q0) P0))" for vs
    using assms(1)
  proof (induction P0 arbitrary: vs)
    case Nil
    then show ?case by simp
  next
    case (Cons p P0)
    then show ?case by (simp add: prismVertices_inner[OF _ assms(2)])
  qed
  then show ?thesis by (simp add: prismVertices_def)
qed

lemma nondegenerateD:
  assumes "nondegenerate P"
  shows "dimensions P = int (length (elementList P)) - 1"
    and "2 \<le> length (elementList P)"
    and "\<forall>m < length (elementList P). elementList P ! m \<noteq> []"
    and "list_all isPoint (elementList P ! 0)"
    and "\<forall>m < length (elementList P). 1 \<le> m \<longrightarrow>
           (\<forall>i < length (elementList P ! m). facetsOf (elementList P ! m ! i) \<noteq> [])"
proof -
  show "dimensions P = int (length (elementList P)) - 1" "2 \<le> length (elementList P)"
    "list_all isPoint (elementList P ! 0)"
    using assms by (auto simp: nondegenerate_def)
  show "\<forall>m < length (elementList P). elementList P ! m \<noteq> []"
    using assms by (auto simp: nondegenerate_def list_all_length)
  have t: "list_all (list_all (\<lambda>c. facetsOf c \<noteq> [])) (tl (elementList P))"
    using assms by (simp add: nondegenerate_def)
  show "\<forall>m < length (elementList P). 1 \<le> m \<longrightarrow>
           (\<forall>i < length (elementList P ! m). facetsOf (elementList P ! m ! i) \<noteq> [])"
  proof (intro allI impI)
    fix m i assume m: "m < length (elementList P)" "1 \<le> m" and i: "i < length (elementList P ! m)"
    have "tl (elementList P) ! (m - 1) = elementList P ! m"
      using m by (simp add: nth_tl)
    moreover have "m - 1 < length (tl (elementList P))" using m by simp
    ultimately have "list_all (\<lambda>c. facetsOf c \<noteq> []) (elementList P ! m)"
      using t by (metis list_all_length)
    then show "facetsOf (elementList P ! m ! i) \<noteq> []" using i by (simp add: list_all_length)
  qed
qed

lemma prism_aux_pure:
  assumes P: "nondegenerate P" and Q: "nondegenerate Q"
  shows "prism_aux P Q = Inr (newPolytopeC (prismPure P Q) unnamed)"
proof -
  let ?M = "length (elementList P)" and ?N = "length (elementList Q)"
  note p = nondegenerateD[OF P] and q = nondegenerateD[OF Q]
  have dP: "dimensions P \<noteq> 0" "nat (dimensions P + 1) = ?M" using p(1,2) by auto
  have dQ: "dimensions Q \<noteq> 0" "nat (dimensions Q + 1) = ?N" using q(1,2) by auto
  have dPQ: "nat (dimensions P + dimensions Q) = ?M + ?N - 2" using p(1,2) q(1,2) by auto
  have r0: "rankOf P 0 = Some (elementList P ! 0)" "rankOf Q 0 = Some (elementList Q ! 0)"
    using p(2) q(2) by (auto simp: rankOf_def)
  have vs: "prismVertices (elementList P ! 0) (elementList Q ! 0) = Inr (prismPoints P Q)"
    unfolding prismPoints_def by (rule prismVertices_points[OF p(4) q(4)])
  let ?els0 = "prismPoints P Q # replicate (?M + ?N - 2) []"
  have len: "length ?els0 = ?M + ?N - 1" using p(2) q(2) by simp
  have lq: "1 \<le> ?N" using q(2) by simp
  from prismRows_ok[OF len lq p(5) p(3) q(3)] obtain memo'
    where "foldE (\<lambda>m. foldE (prismPair P Q m) [(if m = 0 then 1 else 0)..<?N]) [0..<?M]
             (?els0, emptyMemoizer) = Inr (prismPure P Q, memo')"
    unfolding prismPure_def by blast
  then show ?thesis
    by (simp add: prism_aux_def dP dQ dPQ r0 vs)
qed

lemma nth_pushBlock:
  "r < length els \<Longrightarrow> pushBlock k blk els ! r = els ! r @ (if k = r then blk else [])"
  by (simp add: pushBlock_def nth_list_update)

lemma nth_fold_pushBlock:
  assumes "r < length els"
  shows "fold (\<lambda>n. pushBlock (m + n) (b n)) ns els ! r
         = els ! r @ concat (map b (filter (\<lambda>n. m + n = r) ns))"
  using assms
proof (induction ns arbitrary: els)
  case Nil
  then show ?case by simp
next
  case (Cons n ns)
  have "r < length (pushBlock (m + n) (b n) els)" using Cons.prems by simp
  from Cons.IH[OF this] show ?case
    using Cons.prems by (simp add: nth_pushBlock)
qed

lemma filter_eq_upt:
  "filter (\<lambda>n. m + n = r) [a..<N] = (if m \<le> r \<and> a \<le> r - m \<and> r - m < N then [r - m] else [])"
proof (induction N)
  case 0
  then show ?case by simp
next
  case (Suc N)
  show ?case
  proof (cases "a \<le> N")
    case True
    then show ?thesis using Suc by auto
  next
    case False
    then show ?thesis by auto
  qed
qed

lemma nth_prismRow:
  assumes "r < length els"
  shows "fold (\<lambda>n. pushBlock (m + n) (b n)) [a..<N] els ! r
         = els ! r @ (if m \<le> r \<and> a \<le> r - m \<and> r - m < N then b (r - m) else [])"
  unfolding nth_fold_pushBlock[OF assms] filter_eq_upt by auto

lemma map_by_index: "map f xs = map (\<lambda>i. f (xs ! i)) [0..<length xs]"
  by (rule nth_equalityI) auto

lemma nth_prismRows:
  assumes "r < length els"
  shows "fold (\<lambda>m. fold (\<lambda>n. pushBlock (m + n) (b m n)) [(if m = 0 then 1 else 0)..<N]) ms els ! r
         = els ! r @ concat (map (\<lambda>m. b m (r - m)) (filter (prismValid N r) ms))"
  using assms
proof (induction ms arbitrary: els)
  case Nil
  then show ?case by simp
next
  case (Cons m ms)
  let ?els1 = "fold (\<lambda>n. pushBlock (m + n) (b m n)) [(if m = 0 then 1 else 0)..<N] els"
  have l1: "r < length ?els1" using Cons.prems by simp
  have "?els1 ! r = els ! r @ (if prismValid N r m then b m (r - m) else [])"
    using nth_prismRow[OF Cons.prems, of m "b m" "if m = 0 then 1 else 0" N]
    by (simp add: prismValid_def)
  then show ?case
    using Cons.IH[OF l1] by simp
qed

lemma length_prismBlock:
  "length (prismBlock P Q m n) = length (elementList P ! m) * length (elementList Q ! n)"
proof -
  have "length (concat (map (\<lambda>i. map (f i) [0..<b]) [0..<a])) = a * b" for a b :: nat
    and f :: "nat \<Rightarrow> nat \<Rightarrow> element"
    by (induction a) auto
  then show ?thesis by (simp add: prismBlock_def)
qed

lemma prismCount_before:
  assumes "1 \<le> r" "m \<le> r" "r - m < length (elementList Q)" "m \<le> length (elementList P)"
  shows "length (concat (map (\<lambda>m'. prismBlock P Q m' (r - m'))
                          (filter (prismValid (length (elementList Q)) r) [0..<m])))
         = prismCount P Q m (r - m)"
  using assms
proof (induction m)
  case 0
  then show ?case by simp
next
  case (Suc k)
  let ?N = "length (elementList Q)"
  let ?n = "r - Suc k"
  show ?case
  proof (cases "?n = ?N - 1")
    case True
    have "filter (prismValid ?N r) [0..<Suc k] = []"
    proof -
      have "\<not> prismValid ?N r m'" if "m' < Suc k" for m'
      proof -
        have "r - m' \<ge> ?N" using that True Suc.prems by linarith
        then show ?thesis by (simp add: prismValid_def)
      qed
      then show ?thesis by (simp add: filter_empty_conv del: upt_Suc)
    qed
    then show ?thesis using True by (simp del: upt_Suc)
  next
    case False
    then have n1: "r - k < ?N" using Suc.prems by linarith
    have rk: "r - k = ?n + 1" using Suc.prems by simp
    have valid: "prismValid ?N r k" using Suc.prems n1 by (auto simp: prismValid_def)
    have IH: "length (concat (map (\<lambda>m'. prismBlock P Q m' (r - m'))
                          (filter (prismValid ?N r) [0..<k])))
              = prismCount P Q k (r - k)"
      using Suc.IH Suc.prems n1 by simp
    show ?thesis
      using IH valid False by (simp add: length_prismBlock rk)
  qed
qed

lemma nth_prismBlock:
  assumes "i < length (elementList P ! m)" "j < length (elementList Q ! n)"
  shows "prismBlock P Q m n ! (i * length (elementList Q ! n) + j) = Facets (prismCellSpec P Q m n i j)"
  unfolding prismBlock_def
  using nth_concat_uniform[of "length (elementList P ! m)"
      "\<lambda>i. map (\<lambda>j. Facets (prismCellSpec P Q m n i j)) [0..<length (elementList Q ! n)]"
      "length (elementList Q ! n)" i j] assms
  by simp

lemma prismPure_position:
  assumes m: "m < length (elementList P)" and n: "n < length (elementList Q)"
    and i: "i < length (elementList P ! m)" and j: "j < length (elementList Q ! n)"
    and mn: "1 \<le> m + n"
    and lp: "1 \<le> length (elementList P)"
  shows "prismPure P Q ! (m + n) ! (prismCount P Q m n + i * length (elementList Q ! n) + j)
         = Facets (prismCellSpec P Q m n i j)"
proof -
  let ?M = "length (elementList P)" and ?N = "length (elementList Q)"
  let ?r = "m + n"
  let ?els0 = "prismPoints P Q # replicate (?M + ?N - 2) []"
  let ?blk = "\<lambda>m'. prismBlock P Q m' (?r - m')"
  have r: "?r < length ?els0" using m n by simp
  have e0: "?els0 ! ?r = []" using mn r by (cases ?r) auto
  have rank: "prismPure P Q ! ?r = concat (map ?blk (filter (prismValid ?N ?r) [0..<?M]))"
    unfolding prismPure_def
    using nth_prismRows[OF r, of "prismBlock P Q" ?N "[0..<?M]"] e0 by simp
  have split: "[0..<?M] = [0..<m] @ m # [Suc m..<?M]"
    using m by (metis upt_conv_Cons upt_add_eq_append le0 add.commute add.right_neutral less_imp_le_nat le_add_diff_inverse)
  have valid: "prismValid ?N ?r m" using n mn by (auto simp: prismValid_def)
  have rank': "prismPure P Q ! ?r
     = concat (map ?blk (filter (prismValid ?N ?r) [0..<m])) @ prismBlock P Q m n
       @ concat (map ?blk (filter (prismValid ?N ?r) [Suc m..<?M]))"
    unfolding rank by (subst split) (simp add: valid)
  have before: "length (concat (map ?blk (filter (prismValid ?N ?r) [0..<m]))) = prismCount P Q m n"
    using prismCount_before[of ?r m Q P] mn m n by simp
  have inblk: "i * length (elementList Q ! n) + j < length (prismBlock P Q m n)"
  proof -
    have "i * length (elementList Q ! n) + j < Suc i * length (elementList Q ! n)" using j by simp
    also have "\<dots> \<le> length (elementList P ! m) * length (elementList Q ! n)"
      using i by (intro mult_le_mono1) simp
    finally show ?thesis by (simp add: length_prismBlock)
  qed
  show ?thesis
    unfolding rank'
    using before inblk nth_prismBlock[OF i j]
    by (simp add: nth_append add.assoc)
qed

lemma prismPure_vertices:
  assumes i: "i < length (elementList P ! 0)" and j: "j < length (elementList Q ! 0)"
  shows "prismPure P Q ! 0 ! (i * length (elementList Q ! 0) + j)
         = Point (coordsOf (elementList P ! 0 ! i) @ coordsOf (elementList Q ! 0 ! j))"
proof -
  let ?M = "length (elementList P)" and ?N = "length (elementList Q)"
  let ?els0 = "prismPoints P Q # replicate (?M + ?N - 2) []"
  have none: "filter (prismValid ?N 0) [0..<?M] = []"
    by (auto simp: filter_empty_conv prismValid_def)
  have rank: "prismPure P Q ! 0 = prismPoints P Q"
    unfolding prismPure_def
    using nth_prismRows[of 0 ?els0 "prismBlock P Q" ?N "[0..<?M]"] none by simp
  have "prismPoints P Q = concat (map (\<lambda>i. map (\<lambda>j. Point (coordsOf (elementList P ! 0 ! i)
              @ coordsOf (elementList Q ! 0 ! j))) [0..<length (elementList Q ! 0)])
              [0..<length (elementList P ! 0)])"
    unfolding prismPoints_def
    by (subst map_by_index, subst (2) map_by_index) (rule refl)
  then show ?thesis
    unfolding rank
    using nth_concat_uniform[of "length (elementList P ! 0)"
      "\<lambda>i. map (\<lambda>j. Point (coordsOf (elementList P ! 0 ! i) @ coordsOf (elementList Q ! 0 ! j)))
              [0..<length (elementList Q ! 0)]" "length (elementList Q ! 0)" i j] i j
    by simp
qed

text \<open>
  Claim C2. For non-degenerate polytopes \<open>P\<close> and \<open>Q\<close>, ranks \<open>m\<close>, \<open>n\<close> and element
  indices \<open>i\<close>, \<open>j\<close>: the prism product returns a polytope, and the entry of its rank
  \<open>m + n\<close> at the position \<open>count(m, n) + i * |Q rank n| + j\<close> is the product of the
  \<open>i\<close>-th \<open>m\<close>-element of \<open>P\<close> and the \<open>j\<close>-th \<open>n\<close>-element of \<open>Q\<close> (the
  concatenated point for two vertices; otherwise the cell whose facets are the indices
  looked up for its facet products). The lookup returns exactly that position from every
  state of the memoizer in which the slots that are set hold the count and the slot it
  reads is set, as it is whenever the product calls it. The count is the one of the
  recursion.
\<close>

theorem prism_index_position:
  assumes "nondegenerate P" and "nondegenerate Q"
    and "m < length (elementList P)" and "n < length (elementList Q)"
    and "i < length (elementList P ! m)" and "j < length (elementList Q ! n)"
  shows "(\<exists>R. prism_aux P Q = Inr R
            \<and> elementList R ! (m + n) ! (prismCount P Q m n + i * length (elementList Q ! n) + j)
                = (if m = 0 \<and> n = 0
                   then Point (coordsOf (elementList P ! 0 ! i) @ coordsOf (elementList Q ! 0 ! j))
                   else Facets (prismCellSpec P Q m n i j)))
     \<and> prismIndex P Q m (Num (int i)) n (Num (int j))
         = Num (int (prismCount P Q m n + i * length (elementList Q ! n) + j))
     \<and> (\<forall>memo. memoOK P Q memo
                 \<and> (m = 0 \<or> n = length (elementList Q) - 1 \<or> isSet memo (m - 1) (n + 1))
           \<longrightarrow> (\<exists>memo'. getIndexOfPrismProduct m (Num (int i)) n (Num (int j)) P Q memo
                          = Inr (Num (int (prismCount P Q m n + i * length (elementList Q ! n) + j)),
                                 memo')
                        \<and> memoOK P Q memo' \<and> isSet memo' m n))
     \<and> prismCount P Q m n
         = (if m = 0 \<or> n = length (elementList Q) - 1 then 0
            else prismCount P Q (m - 1) (n + 1)
                 + length (elementList P ! (m - 1)) * length (elementList Q ! (n + 1)))"
proof -
  have idx: "prismIndex P Q m (Num (int i)) n (Num (int j))
         = Num (int (prismCount P Q m n + i * length (elementList Q ! n) + j))"
    by (simp add: prismIndex_def)
  have pos: "\<exists>R. prism_aux P Q = Inr R
            \<and> elementList R ! (m + n) ! (prismCount P Q m n + i * length (elementList Q ! n) + j)
                = (if m = 0 \<and> n = 0
                   then Point (coordsOf (elementList P ! 0 ! i) @ coordsOf (elementList Q ! 0 ! j))
                   else Facets (prismCellSpec P Q m n i j))"
  proof (cases "m = 0 \<and> n = 0")
    case True
    then show ?thesis
      using prism_aux_pure[OF assms(1,2)] prismPure_vertices[of i P j Q] assms(5,6)
      by (simp add: newPolytopeC_def)
  next
    case False
    then have mn: "1 \<le> m + n" by arith
    have lp: "1 \<le> length (elementList P)" using assms(3) by simp
    show ?thesis
      using prism_aux_pure[OF assms(1,2)] prismPure_position[OF assms(3,4,5,6) mn lp] False
      by (simp add: newPolytopeC_def)
  qed
  have look: "\<exists>memo'. getIndexOfPrismProduct m (Num (int i)) n (Num (int j)) P Q memo
                          = Inr (Num (int (prismCount P Q m n + i * length (elementList Q ! n) + j)),
                                 memo')
                        \<and> memoOK P Q memo' \<and> isSet memo' m n"
    if ok: "memoOK P Q memo"
      and pre: "m = 0 \<or> n = length (elementList Q) - 1 \<or> isSet memo (m - 1) (n + 1)" for memo
  proof -
    have pre': "m = 0 \<or> n = length (elementList Q) - 1
              \<or> (isSet memo (m - 1) (n + 1) \<and> m - 1 < length (elementList P))"
      using pre assms(3) by auto
    from getIndexOfPrismProduct_ok[where i = "Num (int i)" and j = "Num (int j)", OF ok assms(4) pre']
    show ?thesis unfolding idx by blast
  qed
  have rec: "prismCount P Q m n
         = (if m = 0 \<or> n = length (elementList Q) - 1 then 0
            else prismCount P Q (m - 1) (n + 1)
                 + length (elementList P ! (m - 1)) * length (elementList Q ! (n + 1)))"
    by (cases m) auto
  show ?thesis using idx pos look rec by blast
qed

lemma nondegenerate_dyad: "nondegenerate (dyad None)"
  by (simp add: nondegenerate_def dyad_def newPolytopeC_def Let_def)

lemma prism_dyad_count: "prismCount (dyad None) (dyad None) (Suc 0) 0 = 2"
  by code_simp

lemma prism_dyad_cell:
  "prismCellSpec (dyad None) (dyad None) (Suc 0) 0 0 (Suc 0) = [Num 1, Num 3]"
  by code_simp

theorem prism_index_position_witness:
  "nondegenerate (dyad None)
   \<and> (1::nat) < length (elementList (dyad None)) \<and> (0::nat) < length (elementList (dyad None))
   \<and> (0::nat) < length (elementList (dyad None) ! 1) \<and> (1::nat) < length (elementList (dyad None) ! 0)
   \<and> (\<exists>R. prism_aux (dyad None) (dyad None) = Inr R
          \<and> elementList R ! 1 ! 3 = Facets [Num 1, Num 3])
   \<and> prismIndex (dyad None) (dyad None) 1 (Num 0) 0 (Num 1) = Num 3"
proof -
  have h: "(1::nat) < length (elementList (dyad None))" "(0::nat) < length (elementList (dyad None))"
    "(0::nat) < length (elementList (dyad None) ! 1)" "(1::nat) < length (elementList (dyad None) ! 0)"
    by (simp_all add: dyad_def newPolytopeC_def Let_def)
  have l: "length (elementList (dyad None) ! 0) = 2"
    by (simp add: dyad_def newPolytopeC_def Let_def)
  note t = prism_index_position[OF nondegenerate_dyad nondegenerate_dyad h]
  show ?thesis
    using t h nondegenerate_dyad
    by (simp add: prism_dyad_count prism_dyad_cell l del: prismCount.simps)
qed

subsection \<open>The tegum and pyramid products return\<close>

lemma rowsLe_refl: "rowsLe memo memo"
  by (simp add: rowsLe_def)

lemma rowsLe_trans: "rowsLe a b \<Longrightarrow> rowsLe b c \<Longrightarrow> rowsLe a c"
  by (simp add: rowsLe_def)

lemma foldE_inv_ex:
  assumes step: "\<And>ys x zs s. xs = ys @ x # zs \<Longrightarrow> I ys s \<Longrightarrow>
             \<exists>s'. f x s = Inr s' \<and> I (ys @ [x]) s'"
    and init: "I [] s"
  shows "\<exists>s'. foldE f xs s = Inr s' \<and> I xs s'"
  using assms
proof (induction xs arbitrary: I s)
  case Nil
  then show ?case by simp
next
  case (Cons x xs)
  from Cons.prems(1)[of "[]" x xs s] Cons.prems(2)
  obtain s1 where s1: "f x s = Inr s1" "I [x] s1"
    by auto
  have "\<exists>s'. foldE f xs s1 = Inr s' \<and> I (x # xs) s'"
  proof (rule Cons.IH[where I = "\<lambda>ys. I (x # ys)"])
    fix ys y zs s0
    assume "xs = ys @ y # zs" "I (x # ys) s0"
    then show "\<exists>s'. f y s0 = Inr s' \<and> I (x # ys @ [y]) s'"
      using Cons.prems(1)[of "x # ys" y zs s0] by simp
  next
    show "I [x] s1" by (rule s1(2))
  qed
  then show ?case using s1(1) by simp
qed

lemma getIndexOfTegumProduct_ok:
  assumes off: "m = - 1 \<or> n = - 1 \<or> (0 \<le> n \<and> nat n < length (elementList Q))"
    and m: "- 1 \<le> m" and n: "- 1 \<le> n"
    and pre: "m = - 1 \<or> n + 1 = int (length (elementList Q)) - (if mode then 1 else 0)
              \<or> (memo (nat m) \<noteq> None \<and> nat (n + 1) < length (elementList Q)
                  \<and> m \<le> int (length (elementList P)))"
  shows "\<exists>v memo'. getIndexOfTegumProduct m i n j P Q memo mode = Inr (v, memo')
           \<and> memo' (nat (m + 1)) \<noteq> None \<and> rowsLe memo memo'"
proof -
  have "\<exists>offset. (if m = - 1 then Inr j
            else if n = - 1 then Inr i
            else (case rankOf Q (nat n) of
                    None \<Rightarrow> Inl TypeError
                  | Some Qn \<Rightarrow> Inr (js_add (js_mul i (Num (int (length Qn)))) j))) = Inr offset"
    using off by (cases "m = - 1"; cases "n = - 1"; simp add: rankOf_def)
  then obtain offset where o: "(if m = - 1 then Inr j
            else if n = - 1 then Inr i
            else (case rankOf Q (nat n) of
                    None \<Rightarrow> Inl TypeError
                  | Some Qn \<Rightarrow> Inr (js_add (js_mul i (Num (int (length Qn)))) j))) = Inr offset"
    by blast
  let ?m = "nat (m + 1)" and ?n = "nat (n + 1)"
  have n': "int ?n = n + 1" using n by simp
  show ?thesis
  proof (cases "memo ?m \<noteq> None \<and> truthy (rowOf memo ?m ?n)")
    case True
    then have "getIndexOfTegumProduct m i n j P Q memo mode
               = Inr (js_add (rowOf memo ?m ?n) offset, memo)"
      unfolding getIndexOfTegumProduct_def o by (simp add: Let_def)
    then show ?thesis using True rowsLe_refl by blast
  next
    case miss: False
    show ?thesis
    proof (cases "?m = 0 \<or> int ?n = int (length (elementList Q)) - (if mode then 1 else 0)")
      case True
      then have "getIndexOfTegumProduct m i n j P Q memo mode
               = Inr (js_add (Num 0) offset, memo(?m \<mapsto> (rowOf memo ?m)(?n := Num 0)))"
        unfolding getIndexOfTegumProduct_def o using miss by (auto simp: Let_def)
      then show ?thesis by (auto simp: rowsLe_def)
    next
      case nb: False
      then have m0: "0 \<le> m" using m by auto
      from pre nb m0 n' have p: "memo (nat m) \<noteq> None" "?n < length (elementList Q)"
          "m \<le> int (length (elementList P))"
        by auto
      then obtain prev where prev: "memo (nat m) = Some prev" by auto
      have pm: "?m - 1 = nat m" using m0 by simp
      show ?thesis
      proof (cases "?m = 1")
        case True
        then have mz: "nat m = 0" using pm by simp
        let ?v = "js_add (prev (?n + 1)) (Num (int (length (elementList Q ! ?n))))"
        have "getIndexOfTegumProduct m i n j P Q memo mode
               = Inr (js_add ?v offset, memo(?m \<mapsto> (rowOf memo ?m)(?n := ?v)))"
          unfolding getIndexOfTegumProduct_def o using miss nb True prev p(2) mz
          by (auto simp: Let_def rankOf_def)
        then show ?thesis by (auto simp: rowsLe_def)
      next
        case False
        then have m1: "1 \<le> m" using m0 by auto
        then have p2: "?m - 2 < length (elementList P)" using p(3) by auto
        let ?v = "js_add (prev (?n + 1)) (Num (int (length (elementList P ! (?m - 2)))
                       * int (length (elementList Q ! ?n))))"
        have "getIndexOfTegumProduct m i n j P Q memo mode
               = Inr (js_add ?v offset, memo(?m \<mapsto> (rowOf memo ?m)(?n := ?v)))"
          unfolding getIndexOfTegumProduct_def o using miss nb False prev p(2) p2 pm
          by (auto simp: Let_def rankOf_def)
        then show ?thesis by (auto simp: rowsLe_def)
      qed
    qed
  qed
qed

lemma pushIndices_ex:
  assumes step: "\<And>f memo0. rowsLe memo memo0 \<Longrightarrow>
             \<exists>v memo'. get f memo0 = Inr (v, memo') \<and> rowsLe memo0 memo' \<and> memo' a \<noteq> None"
  shows "\<exists>indices memo'. pushIndices get fs (acc, memo) = Inr (indices, memo')
           \<and> rowsLe memo memo' \<and> (fs \<noteq> [] \<longrightarrow> memo' a \<noteq> None)"
  using step
proof (induction fs arbitrary: acc memo)
  case Nil
  then show ?case by (simp add: rowsLe_refl)
next
  case (Cons f fs)
  from Cons.prems[OF rowsLe_refl, of f] obtain v memo1
    where m1: "get f memo = Inr (v, memo1)" "rowsLe memo memo1" "memo1 a \<noteq> None"
    by blast
  have "\<exists>indices memo'. pushIndices get fs (acc @ [v], memo1) = Inr (indices, memo')
           \<and> rowsLe memo1 memo' \<and> (fs \<noteq> [] \<longrightarrow> memo' a \<noteq> None)"
  proof (rule Cons.IH)
    fix f' memo0 assume "rowsLe memo1 memo0"
    then have "rowsLe memo memo0" using m1(2) by (auto intro: rowsLe_trans)
    from Cons.prems[OF this] show "\<exists>v memo'. get f' memo0 = Inr (v, memo')
        \<and> rowsLe memo0 memo' \<and> memo' a \<noteq> None" .
  qed
  then obtain indices memo' where r: "pushIndices get fs (acc @ [v], memo1) = Inr (indices, memo')"
     "rowsLe memo1 memo'"
    by blast
  have "memo' a \<noteq> None" using m1(3) r(2) by (simp add: rowsLe_def)
  moreover have "rowsLe memo memo'" using m1(2) r(2) by (rule rowsLe_trans)
  ultimately show ?case using m1(1) r(1) by simp
qed

lemma tegumCell_ok:
  assumes m: "- 1 \<le> m" "m \<le> int (length (elementList P))"
    and n: "- 1 \<le> n" "n < upperQ mode Q"
    and pre1: "1 \<le> m \<longrightarrow> memo (nat (m - 1)) \<noteq> None"
    and pre2: "0 \<le> m \<longrightarrow> subIndices P m i \<noteq> [] \<or> memo (nat m) \<noteq> None"
  shows "\<exists>indices memo'. tegumCell mode m i n j P Q memo = Inr (indices, memo')
           \<and> rowsLe memo memo' \<and> (0 \<le> m \<longrightarrow> memo' (nat m) \<noteq> None)"
proof -
  let ?N = "length (elementList Q)"
  have nN: "0 \<le> n \<longrightarrow> nat n < ?N" using n by (auto simp: upperQ_def split: if_splits)
  have first: "\<exists>ind1 memo1. pushIndices (\<lambda>f memo. getIndexOfTegumProduct (m - 1) f n (Num (int j)) P Q memo mode)
             (subIndices P m i) ([], memo) = Inr (ind1, memo1)
           \<and> rowsLe memo memo1 \<and> (subIndices P m i \<noteq> [] \<longrightarrow> memo1 (nat m) \<noteq> None)"
  proof (cases "m = - 1")
    case True
    then show ?thesis by (simp add: subIndices_def rowsLe_refl)
  next
    case False
    then have m0: "0 \<le> m" using m by simp
    show ?thesis
    proof (rule pushIndices_ex)
      fix f memo0 assume le: "rowsLe memo memo0"
      have off: "m - 1 = - 1 \<or> n = - 1 \<or> (0 \<le> n \<and> nat n < ?N)"
        using n nN by auto
      have pre: "m - 1 = - 1 \<or> n + 1 = int ?N - (if mode then 1 else 0)
              \<or> (memo0 (nat (m - 1)) \<noteq> None \<and> nat (n + 1) < ?N \<and> m - 1 \<le> int (length (elementList P)))"
      proof (cases "m - 1 = - 1 \<or> n + 1 = int ?N - (if mode then 1 else 0)")
        case True
        then show ?thesis by blast
      next
        case False
        then have "1 \<le> m" using m0 by auto
        then have "memo0 (nat (m - 1)) \<noteq> None" using pre1 le by (simp add: rowsLe_def)
        moreover have "nat (n + 1) < ?N" using False n by (auto simp: upperQ_def split: if_splits)
        ultimately show ?thesis using m by auto
      qed
      have mm: "- 1 \<le> m - 1" using m0 by simp
      from getIndexOfTegumProduct_ok[where m = "m - 1" and n = n and memo = memo0 and mode = mode
          and P = P and Q = Q and i = f and j = "Num (int j)", OF off mm n(1) pre]
      show "\<exists>v memo'. getIndexOfTegumProduct (m - 1) f n (Num (int j)) P Q memo0 mode = Inr (v, memo')
              \<and> rowsLe memo0 memo' \<and> memo' (nat m) \<noteq> None"
        by auto
    qed
  qed
  then obtain ind1 memo1 where L1: "pushIndices (\<lambda>f memo. getIndexOfTegumProduct (m - 1) f n (Num (int j)) P Q memo mode)
             (subIndices P m i) ([], memo) = Inr (ind1, memo1)"
    and le1: "rowsLe memo memo1"
    and set1: "subIndices P m i \<noteq> [] \<longrightarrow> memo1 (nat m) \<noteq> None"
    by blast
  have def1: "0 \<le> m \<longrightarrow> memo1 (nat m) \<noteq> None"
    using pre2 set1 le1 by (auto simp: rowsLe_def)
  have second: "\<exists>ind2 memo2. pushIndices (\<lambda>f memo. getIndexOfTegumProduct m (Num (int i)) (n - 1) f P Q memo mode)
             (subIndices Q n j) (ind1, memo1) = Inr (ind2, memo2) \<and> rowsLe memo1 memo2"
  proof (cases "n = - 1")
    case True
    then show ?thesis by (simp add: subIndices_def rowsLe_refl)
  next
    case False
    then have n0: "0 \<le> n" using n by simp
    have "\<exists>ind2 memo2. pushIndices (\<lambda>f memo. getIndexOfTegumProduct m (Num (int i)) (n - 1) f P Q memo mode)
             (subIndices Q n j) (ind1, memo1) = Inr (ind2, memo2) \<and> rowsLe memo1 memo2
             \<and> (subIndices Q n j \<noteq> [] \<longrightarrow> memo2 (nat (m + 1)) \<noteq> None)"
    proof (rule pushIndices_ex)
      fix f memo0 assume le: "rowsLe memo1 memo0"
      have off: "m = - 1 \<or> n - 1 = - 1 \<or> (0 \<le> n - 1 \<and> nat (n - 1) < ?N)"
        using n0 nN by auto
      have pre: "m = - 1 \<or> n - 1 + 1 = int ?N - (if mode then 1 else 0)
              \<or> (memo0 (nat m) \<noteq> None \<and> nat (n - 1 + 1) < ?N \<and> m \<le> int (length (elementList P)))"
      proof (cases "m = - 1")
        case True
        then show ?thesis by blast
      next
        case False
        then have "0 \<le> m" using m by simp
        then have "memo0 (nat m) \<noteq> None" using def1 le by (simp add: rowsLe_def)
        then show ?thesis using nN n0 m by auto
      qed
      have nn: "- 1 \<le> n - 1" using n0 by simp
      from getIndexOfTegumProduct_ok[where m = m and n = "n - 1" and memo = memo0 and mode = mode
          and P = P and Q = Q and i = "Num (int i)" and j = f, OF off m(1) nn pre]
      show "\<exists>v memo'. getIndexOfTegumProduct m (Num (int i)) (n - 1) f P Q memo0 mode = Inr (v, memo')
              \<and> rowsLe memo0 memo' \<and> memo' (nat (m + 1)) \<noteq> None"
        by auto
    qed
    then show ?thesis by blast
  qed
  then obtain ind2 memo2 where L2: "pushIndices (\<lambda>f memo. getIndexOfTegumProduct m (Num (int i)) (n - 1) f P Q memo mode)
             (subIndices Q n j) (ind1, memo1) = Inr (ind2, memo2)"
    and le2: "rowsLe memo1 memo2"
    by blast
  have "tegumCell mode m i n j P Q memo = Inr (ind2, memo2)"
    unfolding tegumCell_def L1 sum.case L2 by (rule refl)
  moreover have "rowsLe memo memo2" using le1 le2 by (rule rowsLe_trans)
  moreover have "0 \<le> m \<longrightarrow> memo2 (nat m) \<noteq> None" using def1 le2 by (simp add: rowsLe_def)
  ultimately show ?thesis by blast
qed

lemma foldE_rows:
  assumes step: "\<And>x els0 memo0. x \<in> set xs \<Longrightarrow> length els0 = L \<Longrightarrow> els0 ! 0 = V \<Longrightarrow>
             rowsLe memo memo0 \<Longrightarrow>
             \<exists>s'. f x (els0, memo0) = Inr s' \<and> length (fst s') = L \<and> fst s' ! 0 = V
                  \<and> rowsLe memo0 (snd s') \<and> (good x \<longrightarrow> snd s' a \<noteq> None)"
    and len: "length els = L" and v: "els ! 0 = V"
  shows "\<exists>s'. foldE f xs (els :: element list list, memo) = Inr s' \<and> length (fst s') = L \<and> fst s' ! 0 = V
           \<and> rowsLe memo (snd s') \<and> ((\<exists>x \<in> set xs. good x) \<longrightarrow> snd s' a \<noteq> None)"
proof -
  define I where "I = (\<lambda>(ys :: 'a list) (s :: element list list \<times> memoizer).
      length (fst s) = L \<and> fst s ! 0 = V \<and> rowsLe memo (snd s)
      \<and> ((\<exists>x \<in> set ys. good x) \<longrightarrow> snd s a \<noteq> None))"
  have "\<exists>s'. foldE f xs (els, memo) = Inr s' \<and> I xs s'"
  proof (rule foldE_inv_ex)
    show "I [] (els, memo)" using len v by (simp add: I_def rowsLe_refl)
  next
    fix ys x zs s
    assume split: "xs = ys @ x # zs" and I0: "I ys s"
    obtain els0 memo0 where s: "s = (els0, memo0)" by (cases s)
    have x: "x \<in> set xs" using split by simp
    from I0 s have i0: "length els0 = L" "els0 ! 0 = V" "rowsLe memo memo0"
      "(\<exists>x \<in> set ys. good x) \<longrightarrow> memo0 a \<noteq> None"
      by (auto simp: I_def)
    from step[OF x i0(1,2,3)] obtain s' where st: "f x (els0, memo0) = Inr s'"
      "length (fst s') = L" "fst s' ! 0 = V" "rowsLe memo0 (snd s')" "good x \<longrightarrow> snd s' a \<noteq> None"
      by blast
    have "rowsLe memo (snd s')" using i0(3) st(4) by (rule rowsLe_trans)
    moreover have "(\<exists>x \<in> set (ys @ [x]). good x) \<longrightarrow> snd s' a \<noteq> None"
      using i0(4) st(4,5) by (auto simp: rowsLe_def)
    ultimately show "\<exists>s'. f x s = Inr s' \<and> I (ys @ [x]) s'"
      using st(1,2,3) s unfolding I_def by blast
  qed
  then show ?thesis by (auto simp: I_def)
qed

lemma pushTo_keeps:
  assumes "1 \<le> r" "r < length els"
  shows "\<exists>els'. pushTo r e els = Inr els' \<and> length els' = length els \<and> els' ! 0 = els ! 0"
  using assms by (simp add: pushTo_def)

lemma tegumStep_ok:
  assumes m: "- 1 \<le> m" "m \<le> int (length (elementList P))"
    and n: "- 1 \<le> n" "n < upperQ mode Q"
    and mn: "0 \<le> m + n" and r: "nat (m + n + 1) < length els"
    and pre1: "1 \<le> m \<longrightarrow> memo (nat (m - 1)) \<noteq> None"
    and pre2: "0 \<le> m \<longrightarrow> subIndices P m i \<noteq> [] \<or> memo (nat m) \<noteq> None"
  shows "\<exists>s'. tegumStep mode P Q m n i j (els, memo) = Inr s'
           \<and> length (fst s') = length els \<and> fst s' ! 0 = els ! 0
           \<and> rowsLe memo (snd s') \<and> (0 \<le> m \<longrightarrow> snd s' (nat m) \<noteq> None)"
proof -
  from tegumCell_ok[OF m n pre1 pre2, of j] obtain indices memo'
    where c: "tegumCell mode m i n j P Q memo = Inr (indices, memo')" "rowsLe memo memo'"
      "0 \<le> m \<longrightarrow> memo' (nat m) \<noteq> None"
    by blast
  have r1: "1 \<le> nat (m + n + 1)" using mn by simp
  from pushTo_keeps[OF r1 r, of "Facets indices"] obtain els'
    where p: "pushTo (nat (m + n + 1)) (Facets indices) els = Inr els'"
      "length els' = length els" "els' ! 0 = els ! 0"
    by blast
  have "tegumStep mode P Q m n i j (els, memo) = Inr (els', memo')"
    by (simp add: tegumStep_def c(1) p(1))
  then show ?thesis using c p by simp
qed

lemma tegumRow_ok:
  assumes m: "- 1 \<le> m" "m < int (length (elementList P))"
    and ns: "\<forall>n \<in> set ns. - 1 \<le> n \<and> n < upperQ mode Q"
    and L: "\<forall>n \<in> set ns. nat (m + n + 1) < L"
    and pre1: "1 \<le> m \<longrightarrow> memo (nat (m - 1)) \<noteq> None"
    and sub: "0 \<le> m \<longrightarrow> (\<forall>i < length (elementList P ! nat m). subIndices P m i \<noteq> [])"
    and len: "length els = L"
  shows "\<exists>s'. tegumRow mode P Q ns m (els, memo) = Inr s'
           \<and> length (fst s') = L \<and> fst s' ! 0 = els ! 0 \<and> rowsLe memo (snd s')
           \<and> ((\<exists>n \<in> set ns. 0 \<le> m \<and> 0 \<le> m + n \<and> elementList P ! nat m \<noteq> []
                              \<and> (0 \<le> n \<longrightarrow> elementList Q ! nat n \<noteq> []))
                \<longrightarrow> snd s' (nat m) \<noteq> None)"
proof -
  let ?V = "els ! 0"
  define mc where "mc = (if m = - 1 then 1 else length (elementList P ! nat m))"
  have dm: "dimCount P m = Some mc"
    using m by (auto simp: dimCount_def rankOf_def mc_def)
  define nc where "nc = (\<lambda>n. if n = - 1 then 1 else length (elementList Q ! nat n))"
  have dn: "dimCount Q n = Some (nc n)" if "n \<in> set ns" for n
    using ns that by (auto simp: dimCount_def rankOf_def nc_def upperQ_def split: if_splits)
  let ?body = "\<lambda>n s1. if m + n < 0 then Inr s1
                   else (case dimCount Q n of
                           None \<Rightarrow> Inl TypeError
                         | Some nDimCount \<Rightarrow>
                             foldE (\<lambda>i. foldE (tegumStep mode P Q m n i) [0..<nDimCount])
                               [0..<mc] s1)"
  let ?good = "\<lambda>n. 0 \<le> m \<and> 0 \<le> m + n \<and> 0 < mc \<and> 0 < nc n"
  have "\<exists>s'. foldE ?body ns (els, memo) = Inr s' \<and> length (fst s') = L \<and> fst s' ! 0 = ?V
           \<and> rowsLe memo (snd s') \<and> ((\<exists>n \<in> set ns. ?good n) \<longrightarrow> snd s' (nat m) \<noteq> None)"
  proof (rule foldE_rows[OF _ len refl])
    fix n els0 memo0
    assume nin: "n \<in> set ns" and l0: "length els0 = L" and v0: "els0 ! 0 = ?V"
      and le0: "rowsLe memo memo0"
    have nb: "- 1 \<le> n" "n < upperQ mode Q" using ns nin by auto
    show "\<exists>s'. ?body n (els0, memo0) = Inr s' \<and> length (fst s') = L \<and> fst s' ! 0 = ?V
              \<and> rowsLe memo0 (snd s') \<and> (?good n \<longrightarrow> snd s' (nat m) \<noteq> None)"
    proof (cases "m + n < 0")
      case True
      then show ?thesis using l0 v0 by (simp add: rowsLe_refl)
    next
      case False
      then have mn: "0 \<le> m + n" by simp
      have rL: "nat (m + n + 1) < L" using L nin by simp
      have "\<exists>s'. foldE (\<lambda>i. foldE (tegumStep mode P Q m n i) [0..<nc n]) [0..<mc] (els0, memo0) = Inr s'
              \<and> length (fst s') = L \<and> fst s' ! 0 = ?V \<and> rowsLe memo0 (snd s')
              \<and> ((\<exists>i \<in> set [0..<mc]. 0 \<le> m \<and> 0 < nc n) \<longrightarrow> snd s' (nat m) \<noteq> None)"
      proof (rule foldE_rows[OF _ l0 v0])
        fix i els1 memo1
        assume iin: "i \<in> set [0..<mc]" and l1: "length els1 = L" and v1: "els1 ! 0 = ?V"
          and le1: "rowsLe memo0 memo1"
        have p2: "0 \<le> m \<longrightarrow> subIndices P m i \<noteq> []"
          using sub iin by (auto simp: mc_def split: if_splits)
        have "\<exists>s'. foldE (tegumStep mode P Q m n i) [0..<nc n] (els1, memo1) = Inr s'
              \<and> length (fst s') = L \<and> fst s' ! 0 = ?V \<and> rowsLe memo1 (snd s')
              \<and> ((\<exists>j \<in> set [0..<nc n]. 0 \<le> m) \<longrightarrow> snd s' (nat m) \<noteq> None)"
        proof (rule foldE_rows[OF _ l1 v1])
          fix j els2 memo2
          assume l2: "length els2 = L" and v2: "els2 ! 0 = ?V" and le2: "rowsLe memo1 memo2"
          have "rowsLe memo memo2" using le0 le1 le2 by (blast intro: rowsLe_trans)
          then have q1: "1 \<le> m \<longrightarrow> memo2 (nat (m - 1)) \<noteq> None"
            using pre1 by (simp add: rowsLe_def)
          have q2: "0 \<le> m \<longrightarrow> subIndices P m i \<noteq> [] \<or> memo2 (nat m) \<noteq> None"
            using p2 by simp
          have mle: "m \<le> int (length (elementList P))" using m by simp
          have r2: "nat (m + n + 1) < length els2" using rL l2 by simp
          from tegumStep_ok[OF m(1) mle nb mn r2 q1 q2, of j] l2 v2
          show "\<exists>s'. tegumStep mode P Q m n i j (els2, memo2) = Inr s' \<and> length (fst s') = L
                 \<and> fst s' ! 0 = ?V \<and> rowsLe memo2 (snd s') \<and> (0 \<le> m \<longrightarrow> snd s' (nat m) \<noteq> None)"
            by auto
        qed
        then show "\<exists>s'. foldE (tegumStep mode P Q m n i) [0..<nc n] (els1, memo1) = Inr s'
              \<and> length (fst s') = L \<and> fst s' ! 0 = ?V \<and> rowsLe memo1 (snd s')
              \<and> (0 \<le> m \<and> 0 < nc n \<longrightarrow> snd s' (nat m) \<noteq> None)"
          by auto
      qed
      then obtain s' where t: "foldE (\<lambda>i. foldE (tegumStep mode P Q m n i) [0..<nc n]) [0..<mc] (els0, memo0) = Inr s'"
          "length (fst s') = L" "fst s' ! 0 = ?V" "rowsLe memo0 (snd s')"
          "(\<exists>i \<in> set [0..<mc]. 0 \<le> m \<and> 0 < nc n) \<longrightarrow> snd s' (nat m) \<noteq> None"
        by blast
      have b: "?body n (els0, memo0) = Inr s'"
        using False by (simp add: dn[OF nin] t(1))
      have "?good n \<longrightarrow> snd s' (nat m) \<noteq> None" using t(5) by auto
      then show ?thesis using b t(2,3,4) by blast
    qed
  qed
  then obtain s' where s': "foldE ?body ns (els, memo) = Inr s'" "length (fst s') = L"
      "fst s' ! 0 = ?V" "rowsLe memo (snd s')"
      "(\<exists>n \<in> set ns. ?good n) \<longrightarrow> snd s' (nat m) \<noteq> None"
    by blast
  have eq: "tegumRow mode P Q ns m (els, memo) = Inr s'"
    unfolding tegumRow_def dm option.case by (rule s'(1))
  have g: "?good n" if "n \<in> set ns" "0 \<le> m" "0 \<le> m + n" "elementList P ! nat m \<noteq> []"
      "0 \<le> n \<longrightarrow> elementList Q ! nat n \<noteq> []" for n
  proof -
    have "- 1 \<le> n" using ns that(1) by blast
    then have "0 < nc n" using that(5) by (cases "n = - 1") (simp_all add: nc_def)
    moreover have "0 < mc" using that(2,4) by (simp add: mc_def)
    ultimately show ?thesis using that(2,3) by simp
  qed
  have post: "(\<exists>n \<in> set ns. 0 \<le> m \<and> 0 \<le> m + n \<and> elementList P ! nat m \<noteq> []
                              \<and> (0 \<le> n \<longrightarrow> elementList Q ! nat n \<noteq> []))
                \<longrightarrow> snd s' (nat m) \<noteq> None"
  proof
    assume "\<exists>n \<in> set ns. 0 \<le> m \<and> 0 \<le> m + n \<and> elementList P ! nat m \<noteq> []
                              \<and> (0 \<le> n \<longrightarrow> elementList Q ! nat n \<noteq> [])"
    then obtain n where "n \<in> set ns" "0 \<le> m" "0 \<le> m + n" "elementList P ! nat m \<noteq> []"
      "0 \<le> n \<longrightarrow> elementList Q ! nat n \<noteq> []" by blast
    then have "?good n" by (rule g)
    then have "\<exists>n \<in> set ns. ?good n" using \<open>n \<in> set ns\<close> by blast
    then show "snd s' (nat m) \<noteq> None" using s'(5) by blast
  qed
  show ?thesis using eq s'(2,3,4) post by blast
qed

lemma upto_split_mem:
  assumes "[a..b] = ys @ x # zs" "a \<le> k" "k < x"
  shows "k \<in> set ys"
proof -
  have "x \<in> set [a..b]" by (simp only: assms(1)) simp
  then have "x \<le> b" by simp
  then have "k \<in> set [a..b]" using assms(2,3) by simp
  then have "k \<in> set (ys @ x # zs)" by (simp only: assms(1))
  then have "k \<in> set ys \<or> k = x \<or> k \<in> set zs" by auto
  moreover have "k \<noteq> x" using assms by simp
  moreover have "k \<notin> set zs"
  proof
    assume kz: "k \<in> set zs"
    have "sorted (ys @ x # zs)" using assms(1) sorted_upto by metis
    then have "x \<le> k" using kz by (simp add: sorted_append)
    then show False using assms by simp
  qed
  ultimately show ?thesis by blast
qed

lemma upto_split_bound:
  assumes "[a..b] = ys @ x # zs"
  shows "a \<le> x \<and> x \<le> b"
proof -
  have "x \<in> set [a..b]" by (simp only: assms(1)) simp
  then show ?thesis by simp
qed

lemma tegumRows_ok:
  assumes nP: "nondegenerate P" and nQ: "nondegenerate Q"
    and K: "K < int (length (elementList P))"
    and KQ: "0 \<le> KQ" "KQ < upperQ mode Q"
    and L: "nat (K + KQ + 1) < L"
    and len: "length els = L"
  shows "\<exists>s'. foldE (tegumRow mode P Q [- 1..KQ]) [- 1..K] (els, memo) = Inr s'
           \<and> length (fst s') = L \<and> fst s' ! 0 = els ! 0"
proof -
  let ?V = "els ! 0"
  define I where "I = (\<lambda>(ys :: int list) (s :: element list list \<times> memoizer).
      length (fst s) = L \<and> fst s ! 0 = ?V
      \<and> (\<forall>a. a \<in> set ys \<longrightarrow> 0 \<le> a \<longrightarrow> snd s (nat a) \<noteq> None))"
  have "\<exists>s'. foldE (tegumRow mode P Q [- 1..KQ]) [- 1..K] (els, memo) = Inr s' \<and> I [- 1..K] s'"
  proof (rule foldE_inv_ex)
    show "I [] (els, memo)" using len by (simp add: I_def)
  next
    fix ys x zs s
    assume split: "[- 1..K] = ys @ x # zs" and I0: "I ys s"
    obtain els0 memo0 where s: "s = (els0, memo0)" by (cases s)
    from I0 s have i0: "length els0 = L" "els0 ! 0 = ?V"
      "\<forall>a. a \<in> set ys \<longrightarrow> 0 \<le> a \<longrightarrow> memo0 (nat a) \<noteq> None"
      by (auto simp: I_def)
    have xb: "- 1 \<le> x" "x \<le> K" using upto_split_bound[OF split] by auto
    have m2: "x < int (length (elementList P))" using xb K by simp
    have ns: "\<forall>n \<in> set [- 1..KQ]. - 1 \<le> n \<and> n < upperQ mode Q" using KQ by auto
    have Ls: "\<forall>n \<in> set [- 1..KQ]. nat (x + n + 1) < L" using xb L by auto
    have pre1: "1 \<le> x \<longrightarrow> memo0 (nat (x - 1)) \<noteq> None"
    proof
      assume x1: "1 \<le> x"
      have "x - 1 \<in> set ys" by (rule upto_split_mem[OF split]) (use x1 in simp_all)
      then show "memo0 (nat (x - 1)) \<noteq> None" using i0(3) x1 by simp
    qed
    have sub: "0 \<le> x \<longrightarrow> (\<forall>i < length (elementList P ! nat x). subIndices P x i \<noteq> [])"
    proof (intro impI allI)
      fix i assume x0: "0 \<le> x" and i: "i < length (elementList P ! nat x)"
      show "subIndices P x i \<noteq> []"
      proof (cases "x = 0")
        case True
        then show ?thesis by (simp add: subIndices_def)
      next
        case False
        then have "1 \<le> nat x" "nat x < length (elementList P)" using x0 m2 by auto
        then have "facetsOf (elementList P ! nat x ! i) \<noteq> []"
          using nondegenerateD(5)[OF nP] i by blast
        then show ?thesis using False x0 by (simp add: subIndices_def)
      qed
    qed
    from tegumRow_ok[where m = x and P = P and Q = Q and mode = mode and ns = "[- 1..KQ]"
        and L = L and memo = memo0 and els = els0, OF xb(1) m2 ns Ls pre1 sub i0(1)] obtain s'
      where r: "tegumRow mode P Q [- 1..KQ] x (els0, memo0) = Inr s'" "length (fst s') = L"
        "fst s' ! 0 = els0 ! 0" "rowsLe memo0 (snd s')"
        "(\<exists>n \<in> set [- 1..KQ]. 0 \<le> x \<and> 0 \<le> x + n \<and> elementList P ! nat x \<noteq> []
                              \<and> (0 \<le> n \<longrightarrow> elementList Q ! nat n \<noteq> []))
                \<longrightarrow> snd s' (nat x) \<noteq> None"
      by blast
    have new: "0 \<le> x \<longrightarrow> snd s' (nat x) \<noteq> None"
    proof
      assume x0: "0 \<le> x"
      have "nat x < length (elementList P)" using x0 m2 by simp
      then have p: "elementList P ! nat x \<noteq> []" using nondegenerateD(3)[OF nP] by blast
      have "0 < length (elementList Q)" using nondegenerateD(2)[OF nQ] by auto
      then have q: "elementList Q ! 0 \<noteq> []" using nondegenerateD(3)[OF nQ] by blast
      have "(0::int) \<in> set [- 1..KQ]" using KQ(1) by simp
      then have "\<exists>n \<in> set [- 1..KQ]. 0 \<le> x \<and> 0 \<le> x + n \<and> elementList P ! nat x \<noteq> []
                              \<and> (0 \<le> n \<longrightarrow> elementList Q ! nat n \<noteq> [])"
        using x0 p q by (intro bexI[of _ 0]) simp_all
      then show "snd s' (nat x) \<noteq> None" using r(5) by blast
    qed
    have old: "\<forall>a. a \<in> set ys \<longrightarrow> 0 \<le> a \<longrightarrow> snd s' (nat a) \<noteq> None"
      using i0(3) r(4) by (simp add: rowsLe_def)
    have "I (ys @ [x]) s'" using r(2,3) i0(2) new old by (auto simp: I_def)
    then show "\<exists>s'. tegumRow mode P Q [- 1..KQ] x s = Inr s' \<and> I (ys @ [x]) s'"
      using r(1) s by blast
  qed
  then show ?thesis by (auto simp: I_def)
qed

lemma tegumComponentStep_ok:
  assumes P: "2 \<le> length (elementList P)" and Q: "2 \<le> length (elementList Q)"
    and m: "m = length (elementList P) - 1" and n: "n = length (elementList Q) - 1"
    and len: "length els = length (elementList P) + length (elementList Q) - 1"
  shows "\<exists>s'. tegumComponentStep P Q m n i j (els, memo) = Inr s'
           \<and> length (fst s') = length els \<and> fst s' ! 0 = els ! 0 \<and> rowsLe memo (snd s')"
proof -
  let ?get = "\<lambda>(a, b) memo. getIndexOfTegumProduct (int m - 1) a (int n - 1) b P Q memo True"
  have "\<exists>indices memo'. pushIndices ?get (tegumComponentPairs P Q m n i j) ([], memo)
            = Inr (indices, memo') \<and> rowsLe memo memo'
          \<and> (tegumComponentPairs P Q m n i j \<noteq> [] \<longrightarrow> memo' m \<noteq> None)"
  proof (rule pushIndices_ex)
    fix f :: "jsval \<times> jsval" and memo0 :: memoizer
    obtain a b where f: "f = (a, b)" by (cases f)
    have off: "int m - 1 = - 1 \<or> int n - 1 = - 1
                 \<or> (0 \<le> int n - 1 \<and> nat (int n - 1) < length (elementList Q))"
      using Q n by auto
    have pre: "int m - 1 = - 1 \<or> int n - 1 + 1 = int (length (elementList Q)) - (if True then 1 else 0)
        \<or> (memo0 (nat (int m - 1)) \<noteq> None \<and> nat (int n - 1 + 1) < length (elementList Q)
            \<and> int m - 1 \<le> int (length (elementList P)))"
      using Q n by auto
    have m1: "- 1 \<le> int m - 1" and n1: "- 1 \<le> int n - 1" by simp_all
    from getIndexOfTegumProduct_ok[where m = "int m - 1" and n = "int n - 1" and mode = True
        and P = P and Q = Q and memo = memo0 and i = a and j = b, OF off m1 n1 pre]
    obtain v memo' where g: "getIndexOfTegumProduct (int m - 1) a (int n - 1) b P Q memo0 True
         = Inr (v, memo')" "memo' (nat (int m - 1 + 1)) \<noteq> None" "rowsLe memo0 memo'"
      by blast
    then show "\<exists>v memo'. ?get f memo0 = Inr (v, memo') \<and> rowsLe memo0 memo' \<and> memo' m \<noteq> None"
      using f by simp
  qed
  then obtain indices memo' where p:
      "pushIndices ?get (tegumComponentPairs P Q m n i j) ([], memo) = Inr (indices, memo')"
      "rowsLe memo memo'"
    by blast
  have r1: "1 \<le> m + n" using P m by simp
  have r2: "m + n < length els" using P Q m n len by simp
  from pushTo_keeps[OF r1 r2, of "Facets indices"] obtain els'
    where q: "pushTo (m + n) (Facets indices) els = Inr els'"
      "length els' = length els" "els' ! 0 = els ! 0"
    by blast
  have "tegumComponentStep P Q m n i j (els, memo) = Inr (els', memo')"
    by (simp add: tegumComponentStep_def p(1) q(1))
  then show ?thesis using p(2) q(2,3) by simp
qed

lemma tegumComponents_ok:
  assumes P: "2 \<le> length (elementList P)" and Q: "2 \<le> length (elementList Q)"
    and len: "length els = length (elementList P) + length (elementList Q) - 1"
  shows "\<exists>s'. tegumComponents P Q (els, memo) = Inr s'
           \<and> length (fst s') = length els \<and> fst s' ! 0 = els ! 0"
proof -
  let ?m = "length (elementList P) - 1" and ?n = "length (elementList Q) - 1"
  let ?L = "length els" and ?V = "els ! 0"
  have "\<exists>s'. foldE (\<lambda>i. foldE (tegumComponentStep P Q ?m ?n i) [0..<length (elementList Q ! ?n)])
               [0..<length (elementList P ! ?m)] (els, memo) = Inr s'
          \<and> length (fst s') = ?L \<and> fst s' ! 0 = ?V \<and> rowsLe memo (snd s')
          \<and> ((\<exists>i \<in> set [0..<length (elementList P ! ?m)]. False) \<longrightarrow> snd s' 0 \<noteq> None)"
  proof (rule foldE_rows[OF _ refl refl])
    fix i els1 memo1
    assume l1: "length els1 = ?L" and v1: "els1 ! 0 = ?V"
    have "\<exists>s'. foldE (tegumComponentStep P Q ?m ?n i) [0..<length (elementList Q ! ?n)] (els1, memo1)
              = Inr s' \<and> length (fst s') = ?L \<and> fst s' ! 0 = ?V \<and> rowsLe memo1 (snd s')
            \<and> ((\<exists>j \<in> set [0..<length (elementList Q ! ?n)]. False) \<longrightarrow> snd s' 0 \<noteq> None)"
    proof (rule foldE_rows[OF _ l1 v1])
      fix j els2 memo2
      assume l2: "length els2 = ?L" and v2: "els2 ! 0 = ?V"
      have l2': "length els2 = length (elementList P) + length (elementList Q) - 1"
        using l2 len by simp
      from tegumComponentStep_ok[OF P Q refl refl l2', of i j memo2] l2 v2
      show "\<exists>s'. tegumComponentStep P Q ?m ?n i j (els2, memo2) = Inr s' \<and> length (fst s') = ?L
               \<and> fst s' ! 0 = ?V \<and> rowsLe memo2 (snd s') \<and> (False \<longrightarrow> snd s' 0 \<noteq> None)"
        by auto
    qed
    then show "\<exists>s'. foldE (tegumComponentStep P Q ?m ?n i) [0..<length (elementList Q ! ?n)] (els1, memo1)
              = Inr s' \<and> length (fst s') = ?L \<and> fst s' ! 0 = ?V \<and> rowsLe memo1 (snd s')
            \<and> (False \<longrightarrow> snd s' 0 \<noteq> None)"
      by auto
  qed
  then show ?thesis by (auto simp: tegumComponents_def Let_def)
qed

lemma mapE_points:
  assumes "list_all isPoint xs" and "\<And>x. isPoint x \<Longrightarrow> f x = Inr (g x)"
  shows "mapE f xs = Inr (map g xs)"
  using assms(1)
proof (induction xs)
  case Nil
  then show ?case by simp
next
  case (Cons x xs)
  then show ?case by (simp add: assms(2))
qed

lemma isPointE:
  assumes "isPoint x"
  obtains c where "x = Point c"
  using assms by (cases x) auto

lemma tegumVertices_points:
  assumes "list_all isPoint (elementList P ! 0)" "list_all isPoint (elementList Q ! 0)"
  shows "tegumVertices P Q (elementList P ! 0) (elementList Q ! 0) = Inr (tegumPoints P Q)"
proof -
  have a: "mapE (\<lambda>q. Point_padLeft q (spaceDimensions P)) (elementList Q ! 0)
        = Inr (map (\<lambda>q. Point (replicate (nat (spaceDimensions P)) 0 @ coordsOf q)) (elementList Q ! 0))"
    by (rule mapE_points[OF assms(2)]) (auto elim: isPointE)
  have b: "mapE (\<lambda>p. Point_padRight p (spaceDimensions Q)) (elementList P ! 0)
        = Inr (map (\<lambda>p. Point (coordsOf p @ replicate (nat (spaceDimensions Q)) 0)) (elementList P ! 0))"
    by (rule mapE_points[OF assms(1)]) (auto elim: isPointE)
  show ?thesis by (simp add: tegumVertices_def a b tegumPoints_def)
qed

lemma pyramidVertices_points:
  assumes "list_all isPoint (elementList P ! 0)" "list_all isPoint (elementList Q ! 0)"
  shows "pyramidVertices P Q (elementList P ! 0) (elementList Q ! 0) = Inr (pyramidPoints P Q)"
proof -
  have a: "mapE (\<lambda>q. case Point_padLeft q (spaceDimensions P) of
                        Inl e \<Rightarrow> Inl e | Inr v \<Rightarrow> addCoordinate 1 v) (elementList Q ! 0)
        = Inr (map (\<lambda>q. Point (replicate (nat (spaceDimensions P)) 0 @ coordsOf q @ [1]))
                 (elementList Q ! 0))"
    by (rule mapE_points[OF assms(2)]) (auto elim: isPointE)
  have b: "mapE (\<lambda>p. case Point_padRight p (spaceDimensions Q) of
                        Inl e \<Rightarrow> Inl e | Inr v \<Rightarrow> addCoordinate (- 1) v) (elementList P ! 0)
        = Inr (map (\<lambda>p. Point (coordsOf p @ replicate (nat (spaceDimensions Q)) 0 @ [- 1]))
                 (elementList P ! 0))"
    by (rule mapE_points[OF assms(1)]) (auto elim: isPointE)
  show ?thesis by (simp add: pyramidVertices_def a b pyramidPoints_def)
qed

lemma tegum_aux_ok:
  assumes nP: "nondegenerate P" and nQ: "nondegenerate Q"
  shows "\<exists>R. tegum_aux P Q = Inr R \<and> elementList R ! 0 = tegumPoints P Q
           \<and> length (elementList R) = length (elementList P) + length (elementList Q) - 1"
proof -
  note dP = nondegenerateD(1)[OF nP] and lP = nondegenerateD(2)[OF nP]
  note dQ = nondegenerateD(1)[OF nQ] and lQ = nondegenerateD(2)[OF nQ]
  let ?els = "tegumPoints P Q # replicate (nat (dimensions P + dimensions Q)) []"
  let ?L = "length (elementList P) + length (elementList Q) - 1"
  have len: "length ?els = ?L" using dP dQ lP lQ by (simp add: nat_add_distrib nat_diff_distrib)
  have K: "dimensions P - 1 < int (length (elementList P))" using dP by simp
  have KQ: "0 \<le> dimensions Q - 1" "dimensions Q - 1 < upperQ True Q"
    using dQ lQ by (auto simp: upperQ_def)
  have L: "nat (dimensions P - 1 + (dimensions Q - 1) + 1) < ?L" using dP dQ lP lQ by simp
  from tegumRows_ok[OF nP nQ K KQ L len, of emptyMemoizer] obtain s
    where rows: "foldE (tegumRow True P Q [- 1..dimensions Q - 1]) [- 1..dimensions P - 1]
                   (?els, emptyMemoizer) = Inr s"
      "length (fst s) = ?L" "fst s ! 0 = ?els ! 0"
    by blast
  obtain els1 memo1 where s: "s = (els1, memo1)" by (cases s)
  have l1: "length els1 = ?L" using rows(2) s by simp
  from tegumComponents_ok[OF lP lQ l1, of memo1] obtain s'
    where comp: "tegumComponents P Q (els1, memo1) = Inr s'" "length (fst s') = length els1"
      "fst s' ! 0 = els1 ! 0"
    by blast
  obtain els2 memo2 where s': "s' = (els2, memo2)" by (cases s')
  have g1: "\<not> (dimensions P \<le> 0 \<or> rankOf Q 0 = None)" using dP lP lQ by (auto simp: rankOf_def)
  have g2: "\<not> (dimensions Q \<le> 0 \<or> rankOf P 0 = None)" using dQ lP lQ by (auto simp: rankOf_def)
  have "tegum_aux P Q = Inr (newPolytopeC els2 unnamed)"
    unfolding tegum_aux_def
    using g1 g2 rows(1) comp(1) s s'
    by (auto simp: tegumVertices_points[OF nondegenerateD(4)[OF nP] nondegenerateD(4)[OF nQ]])
  moreover have "els2 ! 0 = tegumPoints P Q" using comp(3) rows(3) s s' by simp
  moreover have "length els2 = ?L" using comp(2) l1 s' by simp
  ultimately show ?thesis by (simp add: newPolytopeC_def)
qed

lemma pyramid_aux_ok:
  assumes nP: "nondegenerate P" and nQ: "nondegenerate Q"
  shows "\<exists>R. pyramid_aux P Q = Inr R \<and> elementList R ! 0 = pyramidPoints P Q
           \<and> length (elementList R) = length (elementList P) + length (elementList Q)"
proof -
  note dP = nondegenerateD(1)[OF nP] and lP = nondegenerateD(2)[OF nP]
  note dQ = nondegenerateD(1)[OF nQ] and lQ = nondegenerateD(2)[OF nQ]
  let ?els = "pyramidPoints P Q # replicate (nat (dimensions P + dimensions Q + 1)) []"
  let ?L = "length (elementList P) + length (elementList Q)"
  have len: "length ?els = ?L" using dP dQ lP lQ by (simp add: nat_add_distrib nat_diff_distrib)
  have K: "dimensions P < int (length (elementList P))" using dP by simp
  have KQ: "0 \<le> dimensions Q" "dimensions Q < upperQ False Q"
    using dQ lQ by (auto simp: upperQ_def)
  have L: "nat (dimensions P + dimensions Q + 1) < ?L" using dP dQ lP lQ by simp
  from tegumRows_ok[OF nP nQ K KQ L len, of emptyMemoizer] obtain s
    where rows: "foldE (tegumRow False P Q [- 1..dimensions Q]) [- 1..dimensions P]
                   (?els, emptyMemoizer) = Inr s"
      "length (fst s) = ?L" "fst s ! 0 = ?els ! 0"
    by blast
  obtain els1 memo1 where s: "s = (els1, memo1)" by (cases s)
  have g1: "\<not> (dimensions P = - 1 \<or> rankOf P 0 = None)" using dP lP by (auto simp: rankOf_def)
  have g2: "\<not> (dimensions Q = - 1 \<or> rankOf Q 0 = None)" using dQ lQ by (auto simp: rankOf_def)
  have "pyramid_aux P Q = Inr (newPolytopeC els1 unnamed)"
    unfolding pyramid_aux_def
    using g1 g2 rows(1) s
    by (auto simp: pyramidVertices_points[OF nondegenerateD(4)[OF nP] nondegenerateD(4)[OF nQ]])
  moreover have "els1 ! 0 = pyramidPoints P Q" using rows(3) s by simp
  moreover have "length els1 = ?L" using rows(2) s by simp
  ultimately show ?thesis by (simp add: newPolytopeC_def)
qed

lemma product_aux_pair:
  "product_aux [P, Q] type fn =
     (case fn P Q of Inl e \<Rightarrow> Inl e
      | Inr r \<Rightarrow> Inr (r\<lparr>construction := type [construction Q, construction P]\<rparr>))"
  by (simp add: product_aux_def split: sum.splits)

lemma nondegenerate_danglingDyad: "nondegenerate danglingDyad"
  by (simp add: nondegenerate_def danglingDyad_def newPolytopeC_def)

lemma danglingDyad_invalid: "\<not> validRefs (elementList danglingDyad)"
  by code_simp

lemma nondegenerate_dyad_4: "nondegenerate (dyad (Some 4))"
  by (simp add: nondegenerate_def dyad_def newPolytopeC_def Let_def)

lemma prismPure_danglingDyad:
  "prismPure danglingDyad (dyad None) =
     [[Point [- 1, - (1 / 2)], Point [- 1, 1 / 2], Point [1, - (1 / 2)], Point [1, 1 / 2]],
      [Facets [Num 0, Num 1], Facets [Num 2, Num 3], Facets [Num 0, Num 14],
       Facets [Num 1, Num 15]],
      [Facets [Num 0, Num 7, Num 2, Num 3]]]"
  by code_simp

text \<open>
  Claim C1, amended. The products validate nothing and reject nothing. For every pair of
  operands whose rank lists are all nonempty, whose vertices are points and whose cells
  each name at least one facet, the prism, the tegum and the pyramid product each return
  a polytope and raise no error, whether or not the facet indices of the operands are in
  range. The element list of the prism product is \<open>prismPure P Q\<close>, for valid and
  invalid operands alike: every facet index \<open>f\<close> of a cell of an operand goes, as it
  stands, through \<open>prismIndex\<close>.
\<close>

theorem products_never_reject:
  assumes "nondegenerate P" and "nondegenerate Q"
  shows "(\<exists>R. prism [P, Q] = Inr R \<and> elementList R = prismPure P Q)
         \<and> (\<exists>R. tegum [P, Q] = Inr R) \<and> (\<exists>R. pyramid [P, Q] = Inr R)"
proof -
  obtain T where T: "tegum_aux P Q = Inr T" using tegum_aux_ok[OF assms] by blast
  obtain Y where Y: "pyramid_aux P Q = Inr Y" using pyramid_aux_ok[OF assms] by blast
  show ?thesis
    by (simp add: prism_def tegum_def pyramid_def product_aux_pair prism_aux_pure[OF assms] T Y
        newPolytopeC_def)
qed

text \<open>
  The amended claim at the dyad whose edge names the vertex 7: its references are not
  valid, the three products with a dyad return, and the square of the prism product names
  the vertices 14 and 15.
\<close>

theorem products_never_reject_witness:
  "nondegenerate danglingDyad \<and> nondegenerate (dyad None)
   \<and> \<not> validRefs (elementList danglingDyad)
   \<and> (\<exists>R. prism [danglingDyad, dyad None] = Inr R
        \<and> elementList R =
            [[Point [- 1, - (1 / 2)], Point [- 1, 1 / 2], Point [1, - (1 / 2)], Point [1, 1 / 2]],
             [Facets [Num 0, Num 1], Facets [Num 2, Num 3], Facets [Num 0, Num 14],
              Facets [Num 1, Num 15]],
             [Facets [Num 0, Num 7, Num 2, Num 3]]])
   \<and> (\<exists>R. tegum [danglingDyad, dyad None] = Inr R)
   \<and> (\<exists>R. pyramid [danglingDyad, dyad None] = Inr R)"
  using products_never_reject[OF nondegenerate_danglingDyad nondegenerate_dyad]
    nondegenerate_danglingDyad nondegenerate_dyad danglingDyad_invalid
  by (simp add: prismPure_danglingDyad)

text \<open>
  What becomes of an out-of-range index depends on the product. The last pass of
  \<open>_tegum\<close> reads \<open>Q_.elementList[n][j][k]\<close> in its loop over \<open>l\<close>, so of the top cell
  of \<open>Q\<close> it reads only as many entries as the top cell of \<open>P\<close> has. The tegum product
  of a dyad and the square whose face names the edge 99 in its last place is the tegum
  product of the dyad and the square: the index is dropped, and the references of the
  result are valid.
\<close>

lemma tegum_drops_dangling_index:
  "nondegenerate danglingSquare \<and> \<not> validRefs (elementList danglingSquare)
   \<and> validRefs (elementList unitSquare)
   \<and> tegum [dyad None, danglingSquare] = tegum [dyad None, unitSquare]
   \<and> (case tegum [dyad None, danglingSquare] of Inl e \<Rightarrow> False
       | Inr R \<Rightarrow> validRefs (elementList R))"
  by code_simp

subsection \<open>The vertices of the tegum product\<close>

text \<open>
  Claim C8, amended. For every pair of operands whose rank lists are all nonempty, whose
  vertices are points and whose cells each name at least one facet, the tegum product
  returns a polytope whose vertex list is the vertices of \<open>Q\<close> with leading zeros, as
  many as the ambient space of \<open>P\<close> has dimensions, followed by the vertices of \<open>P\<close>
  with trailing zeros, as many as the ambient space of \<open>Q\<close> has dimensions; the number
  of vertices is the sum of the operands' numbers of vertices.
\<close>

theorem tegum_vertex_list:
  assumes "nondegenerate P" and "nondegenerate Q"
  shows "\<exists>R. tegum [P, Q] = Inr R
           \<and> elementList R ! 0 =
               map (\<lambda>q. Point (replicate (nat (spaceDimensions P)) 0 @ coordsOf q))
                 (elementList Q ! 0)
               @ map (\<lambda>p. Point (coordsOf p @ replicate (nat (spaceDimensions Q)) 0))
                   (elementList P ! 0)
           \<and> length (elementList R ! 0)
               = length (elementList P ! 0) + length (elementList Q ! 0)"
proof -
  obtain T where T: "tegum_aux P Q = Inr T" "elementList T ! 0 = tegumPoints P Q"
    using tegum_aux_ok[OF assms] by blast
  have "tegum [P, Q] = Inr (T\<lparr>construction := Multitegum [construction Q, construction P]\<rparr>)"
    by (simp add: tegum_def product_aux_pair T(1))
  then show ?thesis using T(2) by (simp add: tegumPoints_def)
qed

text \<open>The amended claim at the dyads of lengths 1 and 4.\<close>

theorem tegum_vertex_list_witness:
  "nondegenerate (dyad None) \<and> nondegenerate (dyad (Some 4))
   \<and> (\<exists>R. tegum [dyad None, dyad (Some 4)] = Inr R
        \<and> elementList R ! 0 = [Point [0, - 2], Point [0, 2], Point [- (1 / 2), 0], Point [1 / 2, 0]]
        \<and> length (elementList R ! 0) = 4)"
  using tegum_vertex_list[OF nondegenerate_dyad nondegenerate_dyad_4]
    nondegenerate_dyad nondegenerate_dyad_4
  by (auto simp: dyad_def newPolytopeC_def Let_def)

text \<open>
  Counterexample to claim C8. For the dyads of lengths 1 and 4 the vertices of the tegum
  product are \<open>(0, \<plusminus>2)\<close> and \<open>(\<plusminus>1/2, 0)\<close>: the vertices of \<open>Q\<close> carry their
  zero in front and the vertices of \<open>P\<close> behind. The list in the words of the
  specification has the zeros on the other sides.
\<close>

theorem tegum_padding_sides_swapped:
  "map_sum id (\<lambda>R. elementList R ! 0) (tegum [dyad None, dyad (Some 4)])
     = Inr [Point [0, - 2], Point [0, 2], Point [- (1 / 2), 0], Point [1 / 2, 0]]
   \<and> claimedTegumVertices (dyad None) (dyad (Some 4))
     = [Point [- 2, 0], Point [2, 0], Point [0, - (1 / 2)], Point [0, 1 / 2]]
   \<and> map_sum id (\<lambda>R. elementList R ! 0) (tegum [dyad None, dyad (Some 4)])
     \<noteq> Inr (claimedTegumVertices (dyad None) (dyad (Some 4)))"
  by code_simp

subsection \<open>The cells of the simplex\<close>

declare lowBits.simps [simp del]

lemma bitsOf_0: "bitsOf 0 = []"
  by (simp add: bitsOf.simps)

lemma bitsOf_double: "bitsOf (2 * n) = map ((*) 2) (bitsOf n)"
  by (subst bitsOf.simps) (simp add: bitsOf_0)

lemma bitsOf_Suc_double: "bitsOf (Suc (2 * n)) = 1 # map ((*) 2) (bitsOf n)"
  by (subst bitsOf.simps) simp

lemma popcount_0: "popcount 0 = 0"
  by (simp add: popcount_def bitsOf_0)

lemma popcount_double: "popcount (2 * n) = popcount n"
  by (simp add: popcount_def bitsOf_double)

lemma popcount_Suc_double: "popcount (Suc (2 * n)) = Suc (popcount n)"
  by (simp add: popcount_def bitsOf_Suc_double)

lemma popcount_eq_0: "popcount n = 0 \<longleftrightarrow> n = 0"
  by (induction n rule: nat_bit_induct)
     (simp_all add: popcount_0 popcount_double popcount_Suc_double)

lemma and_pred_double: "0 < n \<Longrightarrow> (2 * n) AND (2 * n - 1) = 2 * (n AND (n - 1 :: nat))"
proof -
  assume n: "0 < n"
  have e: "2 * n - 1 = Suc (2 * (n - 1))" using n by simp
  have "(2 * n) AND Suc (2 * (n - 1)) = 2 * (n AND (n - 1))"
    by (subst and_nat_rec) simp
  then show ?thesis by (simp only: e)
qed

lemma and_pred_Suc_double: "Suc (2 * n) AND (Suc (2 * n) - 1) = 2 * n"
  by (subst and_nat_rec) simp

lemma and_pred_less_nat: "0 < t \<Longrightarrow> t AND (t - 1) < (t::nat)"
proof -
  assume "0 < t"
  have "t AND (t - 1) \<le> t - 1"
    by (metis and.commute and_nat_def nat_int_comparison(3) AND_upper1 of_nat_0_le_iff of_nat_and_eq)
  then show ?thesis using \<open>0 < t\<close> by simp
qed

lemma bitsOf_low:
  "0 < t \<Longrightarrow> bitsOf t = (t - (t AND (t - 1))) # bitsOf (t AND (t - 1))"
proof (induction t rule: nat_bit_induct)
  case zero
  then show ?case by simp
next
  case (even n)
  define a where "a = n AND (n - 1)"
  have ap: "(2 * n) AND (2 * n - 1) = 2 * a"
    unfolding a_def using even.hyps by (rule and_pred_double)
  have "bitsOf (2 * n) = map ((*) 2) ((n - a) # bitsOf a)"
    using even unfolding a_def by (simp add: bitsOf_double)
  also have "\<dots> = (2 * n - 2 * a) # bitsOf (2 * a)"
    by (simp add: bitsOf_double diff_mult_distrib2)
  finally show ?case unfolding ap .
next
  case (odd n)
  show ?case
    by (simp only: and_pred_Suc_double bitsOf_Suc_double bitsOf_double) simp
qed

lemma popcount_low: "0 < t \<Longrightarrow> popcount t = Suc (popcount (t AND (t - 1)))"
  by (simp add: popcount_def bitsOf_low[of t])

lemma popcount_le: "x < 2 ^ n \<Longrightarrow> popcount x \<le> n"
proof (induction n arbitrary: x)
  case 0
  then show ?case by (simp add: popcount_0)
next
  case (Suc n)
  have h: "x div 2 < 2 ^ n" using Suc.prems by auto
  show ?case
  proof (cases "even x")
    case True
    then obtain m where "x = 2 * m" by (auto elim: evenE)
    then show ?thesis using Suc.IH[of m] h by (simp add: popcount_double)
  next
    case False
    then obtain m where "x = Suc (2 * m)" by (auto elim: oddE)
    then show ?thesis using Suc.IH[of m] h by (simp add: popcount_Suc_double)
  qed
qed

lemma popcount_zero_set: "{i. i < 2 ^ n \<and> popcount i = 0} = {0}"
  by (auto simp: popcount_eq_0)

lemma popcount_split:
  "{i. i < 2 ^ Suc n \<and> popcount i = Suc m}
   = (\<lambda>i. 2 * i) ` {i. i < 2 ^ n \<and> popcount i = Suc m}
     \<union> (\<lambda>i. Suc (2 * i)) ` {i. i < 2 ^ n \<and> popcount i = m}"
proof (intro set_eqI iffI)
  fix x assume x: "x \<in> {i. i < 2 ^ Suc n \<and> popcount i = Suc m}"
  show "x \<in> (\<lambda>i. 2 * i) ` {i. i < 2 ^ n \<and> popcount i = Suc m}
          \<union> (\<lambda>i. Suc (2 * i)) ` {i. i < 2 ^ n \<and> popcount i = m}"
  proof (cases "even x")
    case True
    then obtain k where k: "x = 2 * k" by (auto elim: evenE)
    then have "k < 2 ^ n \<and> popcount k = Suc m" using x by (simp add: popcount_double)
    then show ?thesis using k by blast
  next
    case False
    then obtain k where k: "x = Suc (2 * k)" by (auto elim: oddE)
    then have "k < 2 ^ n \<and> popcount k = m" using x by (simp add: popcount_Suc_double)
    then show ?thesis using k by blast
  qed
next
  fix x assume "x \<in> (\<lambda>i. 2 * i) ` {i. i < 2 ^ n \<and> popcount i = Suc m}
          \<union> (\<lambda>i. Suc (2 * i)) ` {i. i < 2 ^ n \<and> popcount i = m}"
  then show "x \<in> {i. i < 2 ^ Suc n \<and> popcount i = Suc m}"
    by (auto simp: popcount_double popcount_Suc_double)
qed

lemma popcount_card: "card {i. i < 2 ^ n \<and> popcount i = m} = n choose m"
proof (induction n arbitrary: m)
  case 0
  have "{i. i < 2 ^ 0 \<and> popcount i = m} = (if m = 0 then {0} else {})"
    by (auto simp: popcount_0)
  then show ?case by simp
next
  case (Suc n)
  show ?case
  proof (cases m)
    case 0
    then show ?thesis by (simp only: popcount_zero_set) simp
  next
    case (Suc m')
    let ?E = "{i. i < 2 ^ n \<and> popcount i = Suc m'}" and ?O = "{i. i < 2 ^ n \<and> popcount i = m'}"
    have fin: "finite ?E" "finite ?O" by simp_all
    have disj: "(\<lambda>i. 2 * i) ` ?E \<inter> (\<lambda>i. Suc (2 * i)) ` ?O = {}"
    proof -
      have "2 * a \<noteq> Suc (2 * b)" for a b :: nat by presburger
      then show ?thesis by blast
    qed
    have cE: "card ((\<lambda>i. 2 * i) ` ?E) = n choose Suc m'"
      using Suc.IH[of "Suc m'"] by (simp add: card_image inj_on_def)
    have cO: "card ((\<lambda>i. Suc (2 * i)) ` ?O) = n choose m'"
      using Suc.IH[of m'] by (simp add: card_image inj_on_def)
    have "card {i. i < 2 ^ Suc n \<and> popcount i = Suc m'} = (n choose Suc m') + (n choose m')"
      unfolding popcount_split
      using card_Un_disjoint[OF _ _ disj] fin cE cO by simp
    then show ?thesis using Suc by simp
  qed
qed

lemma sint_small:
  assumes "0 \<le> k" "k < 2 ^ 31"
  shows "sint (word_of_int k :: 32 word) = k"
proof -
  have "sint (word_of_int k :: 32 word) = signed_take_bit (LENGTH(32) - 1) k"
    by (rule sint_sbintrunc')
  also have "\<dots> = signed_take_bit 31 k" by simp
  also have "\<dots> = k"
  proof (rule signed_take_bit_int_eq_self)
    have "- (2 ^ 31) \<le> (0::int)" by simp
    then show "- (2 ^ 31) \<le> k" using assms(1) by (rule order_trans)
    show "k < 2 ^ 31" by (rule assms(2))
  qed
  finally show ?thesis .
qed

lemma js_and_nat:
  assumes "a < 2 ^ 31"
  shows "js_and (int a) (int b) = int (a AND b)"
proof -
  have "int a AND int b \<le> int a" by (rule AND_upper1) simp
  then have le: "int (a AND b) \<le> int a" by (simp only: of_nat_and_eq)
  have "int a < 2 ^ 31" using assms by simp
  then have small: "int (a AND b) < 2 ^ 31" using le by (rule le_less_trans[rotated])
  have "js_and (int a) (int b) = sint (word_of_int (int a AND int b) :: 32 word)"
    by (simp only: js_and_def word_wi_log_defs(2))
  also have "\<dots> = sint (word_of_int (int (a AND b)) :: 32 word)"
    by (simp only: of_nat_and_eq)
  also have "\<dots> = int (a AND b)"
    by (rule sint_small[OF _ small]) simp
  finally show ?thesis .
qed

lemma js_and_pred_nat:
  assumes "0 < i" "i < 2 ^ 31"
  shows "js_and (int i) (int i - 1) = int (i AND (i - 1))"
proof -
  have e: "int i - 1 = int (i - 1)" using assms(1) by simp
  show ?thesis unfolding e by (rule js_and_nat[OF assms(2)])
qed

lemma lowBits_unfold:
  "lowBits t s =
     (if js_and t (t - 1) > 0
      then lowBits (js_and t (t - 1)) (fst s + 1, snd s @ [js_and t (js_not (t - 1))])
      else (fst s + 1, snd s @ [js_and t (js_not (t - 1))]))"
  by (subst lowBits.simps) (simp add: Let_def)

lemma lowBits_fst:
  assumes "0 < i" "i < 2 ^ 31"
  shows "fst (lowBits (int i) (c, l)) = c + int (popcount i)"
  using assms
proof (induction i arbitrary: c l rule: less_induct)
  case (less i)
  define t' where "t' = i AND (i - 1)"
  define v where "v = js_and (int i) (js_not (int i - 1))"
  have t': "js_and (int i) (int i - 1) = int t'"
    unfolding t'_def by (rule js_and_pred_nat[OF less.prems])
  have lt: "t' < i" unfolding t'_def by (rule and_pred_less_nat[OF less.prems(1)])
  have pc: "popcount i = Suc (popcount t')"
    unfolding t'_def by (rule popcount_low[OF less.prems(1)])
  have step: "lowBits (int i) (c, l)
        = (if int t' > 0 then lowBits (int t') (c + 1, l @ [v]) else (c + 1, l @ [v]))"
    by (subst lowBits_unfold) (simp only: t' fst_conv snd_conv v_def)
  show ?case
  proof (cases "0 < t'")
    case True
    have small: "t' < 2 ^ 31" using lt less.prems(2) by simp
    have "fst (lowBits (int i) (c, l)) = fst (lowBits (int t') (c + 1, l @ [v]))"
      using step True by simp
    also have "\<dots> = c + 1 + int (popcount t')"
      by (rule less.IH[OF lt True small])
    finally show ?thesis by (simp add: pc)
  next
    case False
    then have "fst (lowBits (int i) (c, l)) = c + 1" using step by simp
    moreover have "popcount t' = 0" using False by (simp add: popcount_0)
    ultimately show ?thesis by (simp add: pc)
  qed
qed

lemma simplexStep_lengths:
  assumes i: "0 < i" "i < 2 ^ 31" and p: "popcount i \<le> length (fst s)"
  shows "\<exists>s'. simplexStep i s = Inr s' \<and> length (fst s') = length (fst s)
           \<and> (\<forall>k < length (fst s). length (fst s' ! k)
                  = length (fst s ! k) + (if popcount i = k + 1 \<and> 1 \<le> k then 1 else 0))"
proof -
  define t' where "t' = i AND (i - 1)"
  have t': "js_and (int i) (int i - 1) = int t'"
    unfolding t'_def by (rule js_and_pred_nat[OF i])
  have pc: "popcount i = Suc (popcount t')"
    unfolding t'_def by (rule popcount_low[OF i(1)])
  show ?thesis
  proof (cases "t' = 0")
    case True
    then have "popcount i = 1" using pc by (simp add: popcount_0)
    moreover have "simplexStep i s = Inr s" by (simp add: simplexStep_def t' True)
    ultimately show ?thesis by simp
  next
    case False
    then have "popcount t' \<noteq> 0" by (simp add: popcount_eq_0)
    then have p2: "2 \<le> popcount i" using pc by simp
    define r where "r = popcount i - 1"
    have r: "1 \<le> r" "r < length (fst s)" "popcount i = r + 1" using p2 p by (simp_all add: r_def)
    have f: "fst (lowBits (int i) (- 1, [])) = int r"
      using lowBits_fst[OF i, of "- 1" "[]"] r(3) by simp
    obtain els loc where s: "s = (els, loc)" by (cases s)
    define e where "e = Facets (map (\<lambda>v. loc (js_xor (int i) v)) (snd (lowBits (int i) (- 1, []))))"
    have step: "simplexStep i s
        = Inr (els[r := els ! r @ [e]], loc(int i := Num (int (length (els ! r)))))"
      using r(1,2) False
      by (simp add: simplexStep_def t' Let_def f s rankLength_def pushToRank_def pushTo_def e_def)
    have "length (els[r := els ! r @ [e]] ! k)
          = length (els ! k) + (if popcount i = k + 1 \<and> 1 \<le> k then 1 else 0)"
      if "k < length els" for k
      using that r by (cases "k = r") simp_all
    then show ?thesis using step s by simp
  qed
qed

lemma simplex_fold:
  assumes d: "d \<le> 30" and len: "length els0 = d + 1"
  shows "\<exists>s'. foldE simplexStep [1..<2 ^ (d + 1)] (els0, loc0) = Inr s'
           \<and> length (fst s') = d + 1
           \<and> (\<forall>k < d + 1. length (fst s' ! k)
                  = length (els0 ! k)
                    + length (filter (\<lambda>i. popcount i = k + 1 \<and> 1 \<le> k) [1..<2 ^ (d + 1)]))"
proof -
  define I where "I = (\<lambda>(ys :: nat list) (s :: element list list \<times> (int \<Rightarrow> jsval)).
      length (fst s) = d + 1
      \<and> (\<forall>k < d + 1. length (fst s ! k)
             = length (els0 ! k) + length (filter (\<lambda>i. popcount i = k + 1 \<and> 1 \<le> k) ys)))"
  have "\<exists>s'. foldE simplexStep [1..<2 ^ (d + 1)] (els0, loc0) = Inr s' \<and> I [1..<2 ^ (d + 1)] s'"
  proof (rule foldE_inv_ex)
    show "I [] (els0, loc0)" using len by (simp add: I_def)
  next
    fix ys x zs s
    assume split: "[1..<2 ^ (d + 1)] = ys @ x # zs" and I0: "I ys s"
    have "x \<in> set [1..<2 ^ (d + 1)]" by (simp only: split) simp
    then have x: "0 < x" "x < 2 ^ (d + 1)" by simp_all
    have "(2::nat) ^ (d + 1) \<le> 2 ^ 31" using d by (intro power_increasing) simp_all
    then have x31: "x < 2 ^ 31" using x(2) by simp
    have pl: "popcount x \<le> length (fst s)"
      using popcount_le[OF x(2)] I0 by (simp add: I_def)
    from simplexStep_lengths[OF x(1) x31 pl] obtain s' where
      st: "simplexStep x s = Inr s'" "length (fst s') = length (fst s)"
        "\<forall>k < length (fst s). length (fst s' ! k)
            = length (fst s ! k) + (if popcount x = k + 1 \<and> 1 \<le> k then 1 else 0)"
      by blast
    have "I (ys @ [x]) s'" using I0 st(2,3) by (auto simp: I_def)
    then show "\<exists>s'. simplexStep x s = Inr s' \<and> I (ys @ [x]) s'" using st(1) by blast
  qed
  then show ?thesis by (auto simp: I_def)
qed

lemma popcount_filter_card:
  "length (filter (\<lambda>i. popcount i = Suc k) [1..<2 ^ n]) = n choose Suc k"
proof -
  have "length (filter (\<lambda>i. popcount i = Suc k) [1..<2 ^ n])
        = card ({i. popcount i = Suc k} \<inter> set [1..<2 ^ n])"
    by (rule distinct_length_filter) simp
  also have "{i. popcount i = Suc k} \<inter> set [1..<2 ^ n] = {i. i < 2 ^ n \<and> popcount i = Suc k}"
  proof -
    have "Suc 0 \<le> i" if "popcount i = Suc k" for i
      using that by (cases "i = 0") (simp_all add: popcount_0)
    then show ?thesis by auto
  qed
  also have "card \<dots> = n choose Suc k" by (rule popcount_card)
  finally show ?thesis .
qed

lemma foldE_append:
  "foldE f (xs @ ys) s = (case foldE f xs s of Inl e \<Rightarrow> Inl e | Inr s' \<Rightarrow> foldE f ys s')"
  by (induction xs arbitrary: s) (simp_all split: sum.splits)

lemma pushTo_rank0:
  assumes "pushTo r e els = Inr els'"
  shows "length els' = length els \<and> length (els ! 0) \<le> length (els' ! 0)
         \<and> (r = 0 \<longrightarrow> length (els' ! 0) = length (els ! 0) + 1)"
proof -
  have r: "r < length els" and e: "els' = els[r := els ! r @ [e]]"
    using assms by (auto simp: pushTo_def split: if_splits)
  show ?thesis using r unfolding e by (cases "r = 0") simp_all
qed

lemma simplexStep_rank0:
  assumes "simplexStep i s = Inr s'"
  shows "length (fst s') = length (fst s) \<and> length (fst s ! 0) \<le> length (fst s' ! 0)"
proof (cases "js_and (int i) (int i - 1) = 0")
  case True
  then show ?thesis using assms by (simp add: simplexStep_def)
next
  case False
  define vs where "vs = lowBits (int i) (- 1, [])"
  from assms False obtain els' where
    p: "pushToRank (fst vs) (Facets (map (\<lambda>v. snd s (js_xor (int i) v)) (snd vs))) (fst s) = Inr els'"
    and s': "fst s' = els'"
    by (auto simp: simplexStep_def Let_def vs_def split: sum.splits)
  from p obtain r where "pushTo r (Facets (map (\<lambda>v. snd s (js_xor (int i) v)) (snd vs))) (fst s) = Inr els'"
    by (auto simp: pushToRank_def split: if_splits)
  from pushTo_rank0[OF this] show ?thesis using s' by simp
qed

lemma simplexFold_rank0:
  assumes "foldE simplexStep xs s = Inr s'"
  shows "length (fst s') = length (fst s) \<and> length (fst s ! 0) \<le> length (fst s' ! 0)"
  using assms
proof (induction xs arbitrary: s)
  case Nil
  then show ?case by simp
next
  case (Cons x xs)
  from Cons.prems obtain s1 where s1: "simplexStep x s = Inr s1" "foldE simplexStep xs s1 = Inr s'"
    by (auto split: sum.splits)
  from simplexStep_rank0[OF s1(1)] Cons.IH[OF s1(2)] show ?case by simp
qed

lemma simplexStep_beyond_31_bits:
  assumes "simplexStep 2147483649 s = Inr s'"
  shows "length (fst s' ! 0) = length (fst s ! 0) + 1"
proof -
  have a: "js_and 2147483649 2147483648 = - 2147483648" by code_simp
  have b: "lowBits 2147483649 (- 1, []) = (0, [1])" by code_simp
  from assms obtain els' where
    p: "pushToRank 0 (Facets (map (\<lambda>v. snd s (js_xor 2147483649 v)) [1])) (fst s) = Inr els'"
    and s': "fst s' = els'"
    by (auto simp: simplexStep_def a b Let_def split: sum.splits)
  from p have "pushTo 0 (Facets (map (\<lambda>v. snd s (js_xor 2147483649 v)) [1])) (fst s) = Inr els'"
    by (simp add: pushToRank_def)
  from pushTo_rank0[OF this] show ?thesis using s' by simp
qed

lemma upt_split3: "a \<le> m \<Longrightarrow> m < b \<Longrightarrow> [a..<b] = [a..<m] @ m # [Suc m..<b]"
  by (metis le_add_diff_inverse less_imp_le_nat upt_add_eq_append upt_conv_Cons)

text \<open>
  Claim C4, amended. For every dimension \<open>d\<close> from 0 to 30 the simplex builder returns
  a ranked element model with \<open>d + 1\<close> rank lists, exactly \<open>d + 1\<close> vertices and
  exactly \<open>C(d + 1, k + 1)\<close> cells of rank \<open>k\<close> for every \<open>0 \<le> k \<le> d\<close>. The bound
  is that of the operators \<open>&\<close> and \<open>~\<close>, which work on 32 bits: the loop runs over
  the masks below \<open>2^(d + 1)\<close>.
\<close>

theorem simplex_counts:
  assumes "d \<le> 30"
  shows "\<exists>R. simplex d = Inr R \<and> length (elementList R) = d + 1
           \<and> length (elementList R ! 0) = d + 1
           \<and> (\<forall>k \<le> d. length (elementList R ! k) = (d + 1) choose (k + 1))"
proof -
  let ?els0 = "map (simplexVertex d) [0..<d + 1] # replicate d []"
  have len0: "length ?els0 = d + 1" by simp
  from simplex_fold[OF assms len0, of "simplexLocations d"] obtain s' where
    f: "foldE simplexStep [1..<2 ^ (d + 1)] (?els0, simplexLocations d) = Inr s'"
      "length (fst s') = d + 1"
      "\<forall>k < d + 1. length (fst s' ! k)
          = length (?els0 ! k)
            + length (filter (\<lambda>i. popcount i = k + 1 \<and> 1 \<le> k) [1..<2 ^ (d + 1)])"
    by blast
  have eq: "simplex d = Inr (newPolytopeC (fst s') (Simplex d))"
    unfolding simplex_def f(1) by simp
  have cnt: "length (fst s' ! k) = (d + 1) choose (k + 1)" if k: "k \<le> d" for k
  proof (cases "k = 0")
    case True
    then show ?thesis using f(3) by simp
  next
    case False
    then obtain k' where k': "k = Suc k'" by (cases k) auto
    have "length (?els0 ! k) = 0" using k k' by simp
    moreover have "length (filter (\<lambda>i. popcount i = k + 1 \<and> 1 \<le> k) [1..<2 ^ (d + 1)])
            = (d + 1) choose (k + 1)"
      using popcount_filter_card[of k "d + 1"] k' by simp
    ultimately show ?thesis using f(3) k by simp
  qed
  have "length (fst s' ! 0) = d + 1" using cnt[of 0] by simp
  then show ?thesis using eq f(2) cnt by (simp add: newPolytopeC_def)
qed

text \<open>The amended claim at the triangle: three vertices, three edges, one face.\<close>

theorem simplex_counts_witness:
  "(2::nat) \<le> 30
   \<and> (\<exists>R. simplex 2 = Inr R \<and> length (elementList R) = 3
        \<and> length (elementList R ! 0) = 3 \<and> length (elementList R ! 1) = 3
        \<and> length (elementList R ! 2) = 1)"
proof -
  from simplex_counts[of 2] obtain R where R: "simplex 2 = Inr R" "length (elementList R) = 2 + 1"
    "length (elementList R ! 0) = 2 + 1"
    "\<forall>k \<le> 2. length (elementList R ! k) = (2 + 1) choose (k + 1)"
    by auto
  have "length (elementList R ! 1) = 3" using R(4) by (simp add: numeral_3_eq_3)
  moreover have "length (elementList R ! 2) = 1" using R(4) by simp
  ultimately show ?thesis using R(1,2,3) by simp
qed

text \<open>
  Counterexample to claim C4. For \<open>d = 31\<close> the loop reaches the mask
  \<open>2^31 + 1\<close>. As 32-bit integers \<open>i & (i - 1)\<close> is \<open>-2^31\<close>, which is not zero,
  so the mask is not skipped as a vertex; the loop \<open>do ... while (t > 0)\<close> stops after
  one round because \<open>t\<close> is negative, and the cell is pushed onto the list of rank 0.
  The builder cannot return a model with 32 vertices.
\<close>

theorem simplex_31_extra_vertices:
  "\<not> (\<exists>R. simplex 31 = Inr R \<and> length (elementList R ! 0) = 31 + 1)"
proof
  assume "\<exists>R. simplex 31 = Inr R \<and> length (elementList R ! 0) = 31 + 1"
  then obtain R where R: "simplex 31 = Inr R" "length (elementList R ! 0) = 31 + 1" by blast
  define i0 :: nat where "i0 = 2147483649"
  define N :: nat where "N = 2 ^ (31 + 1)"
  define vs where "vs = map (simplexVertex 31) [0..<31 + 1]"
  define s0 where "s0 = (vs # replicate 31 [], simplexLocations 31)"
  have sx: "simplex 31 = (case foldE simplexStep [1..<N] s0 of Inl e \<Rightarrow> Inl e
                          | Inr s \<Rightarrow> Inr (newPolytopeC (fst s) (Simplex 31)))"
    unfolding simplex_def N_def s0_def vs_def by (rule refl)
  obtain s where s: "foldE simplexStep [1..<N] s0 = Inr s"
    and Rs: "R = newPolytopeC (fst s) (Simplex 31)"
    using R(1) unfolding sx by (cases "foldE simplexStep [1..<N] s0") auto
  have split: "[1..<N] = [1..<i0] @ i0 # [Suc i0..<N]"
    by (rule upt_split3) (simp_all add: i0_def N_def)
  define xs1 where "xs1 = [1..<i0]"
  define xs2 where "xs2 = [Suc i0..<N]"
  have s2: "foldE simplexStep (xs1 @ i0 # xs2) s0 = Inr s"
    using s unfolding split xs1_def xs2_def .
  obtain s1 where f1: "foldE simplexStep xs1 s0 = Inr s1"
    and r1: "foldE simplexStep (i0 # xs2) s1 = Inr s"
    using s2 unfolding foldE_append by (cases "foldE simplexStep xs1 s0") auto
  obtain s2 where f2: "simplexStep i0 s1 = Inr s2"
    and f3: "foldE simplexStep xs2 s2 = Inr s"
    using r1 by (cases "simplexStep i0 s1") auto
  have "length vs = 32" unfolding vs_def by simp
  then have "length (fst s0 ! 0) = 32" unfolding s0_def by simp
  moreover have "length (fst s0 ! 0) \<le> length (fst s1 ! 0)"
    using simplexFold_rank0[OF f1] by blast
  moreover have "length (fst s2 ! 0) = length (fst s1 ! 0) + 1"
    by (rule simplexStep_beyond_31_bits[OF f2[unfolded i0_def]])
  moreover have "length (fst s2 ! 0) \<le> length (fst s ! 0)"
    using simplexFold_rank0[OF f3] by blast
  ultimately have "33 \<le> length (fst s ! 0)" by linarith
  then show False using R(2) Rs by (simp add: newPolytopeC_def)
qed

subsection \<open>The cells of the cross-polytope\<close>


































end
